theory Spec2Isabelle
  imports Main "HOL-Library.Word"
begin

section \<open>The ethash consensus engine of go-altcoinchain\<close>

text \<open>
  A shallow embedding of \<^verbatim>\<open>consensus/ethash/consensus.go\<close>, of the hybrid difficulty
  of \<^verbatim>\<open>CalcCustomDifficulty\<close> and of the stake and transaction registries.
  Go's \<^verbatim>\<open>*big.Int\<close> values are \<open>int\<close>, \<^verbatim>\<open>uint64\<close> is \<open>64 word\<close>, a
  \<^verbatim>\<open>common.Hash\<close> is a \<open>256 word\<close>, a \<^verbatim>\<open>common.Address\<close> a \<open>160 word\<close> and a
  byte slice a list of \<open>8 word\<close>.
\<close>

subsection \<open>Data model\<close>

type_synonym hash = "256 word"
type_synonym address = "160 word"
type_synonym uint64 = "64 word"
type_synonym bytes = "8 word list"

text \<open>The fields of \<^verbatim>\<open>types.Header\<close> that the engine reads. \<open>Difficulty\<close> and
  \<open>Number\<close> are big integers, \<open>BaseFee\<close> is a big integer that is nil before London,
  and the nonce is read as a \<^verbatim>\<open>uint64\<close>.\<close>

record Header =
  ParentHash :: hash
  UncleHash :: hash
  Coinbase :: address
  Root :: hash
  TxHash :: hash
  ReceiptHash :: hash
  Bloom :: bytes
  Difficulty :: int
  Number :: int
  GasLimit :: uint64
  GasUsed :: uint64
  Time :: uint64
  Extra :: bytes
  MixDigest :: hash
  Nonce :: uint64
  BaseFee :: "int option"

text \<open>The fork blocks of \<^verbatim>\<open>params.ChainConfig\<close> that \<^verbatim>\<open>CalcDifficulty\<close> asks for; each is a
  \<^verbatim>\<open>*big.Int\<close> that is nil while the fork is not scheduled.\<close>

record ChainConfig =
  HomesteadBlock :: "int option"
  ByzantiumBlock :: "int option"
  ConstantinopleBlock :: "int option"
  MuirGlacierBlock :: "int option"
  LondonBlock :: "int option"
  ArrowGlacierBlock :: "int option"
  GrayGlacierBlock :: "int option"
  EthPoWForkBlock :: "int option"

text \<open>Modelled from the spec: the fork predicates \<^verbatim>\<open>IsHomestead\<close> ... \<^verbatim>\<open>IsEthPoWFork\<close> of
  \<^verbatim>\<open>params.ChainConfig\<close> are declared outside the sources. The spec says that epochs are
  ordered by activation block number and that an epoch is active when its activation block
  is at most the candidate block number; an unscheduled fork is never active.\<close>

definition isForked :: "int option \<Rightarrow> int \<Rightarrow> bool" where
  "isForked s head = (case s of None \<Rightarrow> False | Some b \<Rightarrow> b \<le> head)"

definition IsHomestead :: "ChainConfig \<Rightarrow> int \<Rightarrow> bool" where
  "IsHomestead c num = isForked (HomesteadBlock c) num"

definition IsByzantium :: "ChainConfig \<Rightarrow> int \<Rightarrow> bool" where
  "IsByzantium c num = isForked (ByzantiumBlock c) num"

definition IsConstantinople :: "ChainConfig \<Rightarrow> int \<Rightarrow> bool" where
  "IsConstantinople c num = isForked (ConstantinopleBlock c) num"

definition IsMuirGlacier :: "ChainConfig \<Rightarrow> int \<Rightarrow> bool" where
  "IsMuirGlacier c num = isForked (MuirGlacierBlock c) num"

definition IsLondon :: "ChainConfig \<Rightarrow> int \<Rightarrow> bool" where
  "IsLondon c num = isForked (LondonBlock c) num"

definition IsArrowGlacier :: "ChainConfig \<Rightarrow> int \<Rightarrow> bool" where
  "IsArrowGlacier c num = isForked (ArrowGlacierBlock c) num"

definition IsGrayGlacier :: "ChainConfig \<Rightarrow> int \<Rightarrow> bool" where
  "IsGrayGlacier c num = isForked (GrayGlacierBlock c) num"

definition IsEthPoWFork :: "ChainConfig \<Rightarrow> int \<Rightarrow> bool" where
  "IsEthPoWFork c num = isForked (EthPoWForkBlock c) num"

text \<open>The constants of the packages \<^verbatim>\<open>params\<close> and \<^verbatim>\<open>types\<close> whose values the sources do
  not give are taken as a parameter.\<close>

record Params =
  ETHWStartDifficulty :: int
  EmptyUncleHash :: hash
  MaximumExtraDataSize :: uint64
  MaxGasLimit :: uint64

text \<open>Modelled from the spec: \<^verbatim>\<open>params.MinimumDifficulty\<close>, \<^verbatim>\<open>params.DifficultyBoundDivisor\<close>
  and \<^verbatim>\<open>params.DurationLimit\<close> are declared outside the sources. Their values are those of
  the constants \<^verbatim>\<open>minimumDifficulty\<close>, \<^verbatim>\<open>difficultyBoundDivisor\<close> (a right shift by 11)
  and \<^verbatim>\<open>frontierDurationLimit\<close> of the same package, and of the spec's bound divisor 2048
  and divisor 13.\<close>

definition MinimumDifficulty :: int where
  "MinimumDifficulty = 131072"

definition DifficultyBoundDivisor :: int where
  "DifficultyBoundDivisor = 2048"

definition DurationLimit :: int where
  "DurationLimit = 13"

definition expDiffPeriod :: int where "expDiffPeriod = 100000"
definition big1 :: int where "big1 = 1"
definition big2 :: int where "big2 = 2"
definition big8 :: int where "big8 = 8"
definition big9 :: int where "big9 = 9"
definition big10 :: int where "big10 = 10"
definition big32 :: int where "big32 = 32"
definition bigMinus99 :: int where "bigMinus99 = - 99"

subsection \<open>Big-integer operations\<close>

text \<open>\<^verbatim>\<open>big.Int.Div\<close> is Euclidean division: the remainder is never negative. Every divisor
  in the engine is a positive constant, except in \<^verbatim>\<open>verifySeal\<close>, which checks the sign of
  the divisor first; division by zero (a panic in Go) is therefore not reached.\<close>

definition bigDiv :: "int \<Rightarrow> int \<Rightarrow> int" where
  "bigDiv x y = (if 0 < y then x div y else - (x div (- y)))"

text \<open>\<^verbatim>\<open>big.Int.Exp(x, y, nil)\<close> is \<open>x\<close> to the power \<open>y\<close>, and 1 when \<open>y \<le> 0\<close>.\<close>

definition bigExp :: "int \<Rightarrow> int \<Rightarrow> int" where
  "bigExp x y = (if y \<le> 0 then 1 else x ^ nat y)"

definition BigMax :: "int \<Rightarrow> int \<Rightarrow> int" where
  "BigMax x y = (if x < y then y else x)"

subsection \<open>The difficulty calculators\<close>

definition calcDifficultyEthPoW :: "Params \<Rightarrow> uint64 \<Rightarrow> Header \<Rightarrow> int" where
  "calcDifficultyEthPoW P time parent =
    (let bigTime = uint time;
         bigParentTime = uint (Time parent);
         x = bigTime - bigParentTime;
         x = bigDiv x big9;
         x = (if UncleHash parent = EmptyUncleHash P then big1 - x else big2 - x);
         x = (if x < bigMinus99 then bigMinus99 else x);
         y = bigDiv (Difficulty parent) DifficultyBoundDivisor;
         x = y * x;
         x = Difficulty parent + x;
         x = (if x < MinimumDifficulty then MinimumDifficulty else x)
     in x)"

definition makeDifficultyCalculator :: "int \<Rightarrow> Params \<Rightarrow> uint64 \<Rightarrow> Header \<Rightarrow> int" where
  "makeDifficultyCalculator bombDelay P time parent =
    (let bombDelayFromParent = bombDelay - big1;
         bigTime = uint time;
         bigParentTime = uint (Time parent);
         x = bigTime - bigParentTime;
         x = bigDiv x big9;
         x = (if UncleHash parent = EmptyUncleHash P then big1 - x else big2 - x);
         x = (if x < bigMinus99 then bigMinus99 else x);
         y = bigDiv (Difficulty parent) DifficultyBoundDivisor;
         x = y * x;
         x = Difficulty parent + x;
         x = (if x < MinimumDifficulty then MinimumDifficulty else x);
         fakeBlockNumber = (if bombDelayFromParent \<le> Number parent
                            then Number parent - bombDelayFromParent else 0);
         periodCount = bigDiv fakeBlockNumber expDiffPeriod
     in if big1 < periodCount
        then (let y = periodCount - big2; y = bigExp big2 y in x + y)
        else x)"

definition calcDifficultyEip5133 :: "Params \<Rightarrow> uint64 \<Rightarrow> Header \<Rightarrow> int" where
  "calcDifficultyEip5133 = makeDifficultyCalculator 11400000"

definition calcDifficultyEip4345 :: "Params \<Rightarrow> uint64 \<Rightarrow> Header \<Rightarrow> int" where
  "calcDifficultyEip4345 = makeDifficultyCalculator 10700000"

definition calcDifficultyEip3554 :: "Params \<Rightarrow> uint64 \<Rightarrow> Header \<Rightarrow> int" where
  "calcDifficultyEip3554 = makeDifficultyCalculator 9700000"

definition calcDifficultyEip2384 :: "Params \<Rightarrow> uint64 \<Rightarrow> Header \<Rightarrow> int" where
  "calcDifficultyEip2384 = makeDifficultyCalculator 9000000"

definition calcDifficultyConstantinople :: "Params \<Rightarrow> uint64 \<Rightarrow> Header \<Rightarrow> int" where
  "calcDifficultyConstantinople = makeDifficultyCalculator 5000000"

definition calcDifficultyByzantium :: "Params \<Rightarrow> uint64 \<Rightarrow> Header \<Rightarrow> int" where
  "calcDifficultyByzantium = makeDifficultyCalculator 3000000"

definition calcDifficultyHomestead :: "uint64 \<Rightarrow> Header \<Rightarrow> int" where
  "calcDifficultyHomestead time parent =
    (let bigTime = uint time;
         bigParentTime = uint (Time parent);
         x = bigTime - bigParentTime;
         x = bigDiv x big10;
         x = big1 - x;
         x = (if x < bigMinus99 then bigMinus99 else x);
         y = bigDiv (Difficulty parent) DifficultyBoundDivisor;
         x = y * x;
         x = Difficulty parent + x;
         x = (if x < MinimumDifficulty then MinimumDifficulty else x);
         periodCount = Number parent + big1;
         periodCount = bigDiv periodCount expDiffPeriod
     in if big1 < periodCount
        then (let y = periodCount - big2; y = bigExp big2 y in x + y)
        else x)"

definition calcDifficultyFrontier :: "uint64 \<Rightarrow> Header \<Rightarrow> int" where
  "calcDifficultyFrontier time parent =
    (let adjust = bigDiv (Difficulty parent) DifficultyBoundDivisor;
         bigTime = uint time;
         bigParentTime = uint (Time parent);
         diff = (if bigTime - bigParentTime < DurationLimit
                 then Difficulty parent + adjust else Difficulty parent - adjust);
         diff = (if diff < MinimumDifficulty then MinimumDifficulty else diff);
         periodCount = Number parent + big1;
         periodCount = bigDiv periodCount expDiffPeriod
     in if big1 < periodCount
        then (let expDiff = periodCount - big2;
                  expDiff = bigExp big2 expDiff;
                  diff = diff + expDiff
              in BigMax diff MinimumDifficulty)
        else diff)"

text \<open>\<^verbatim>\<open>CalcDifficulty\<close>: the \<^verbatim>\<open>switch\<close> takes the first case that holds, from the
  EthPoW fork down to Frontier.\<close>

definition CalcDifficulty :: "Params \<Rightarrow> ChainConfig \<Rightarrow> uint64 \<Rightarrow> Header \<Rightarrow> int" where
  "CalcDifficulty P config time parent =
    (let next = Number parent + big1 in
     if IsEthPoWFork config next then
       (if EthPoWForkBlock config \<noteq> None \<and> the (EthPoWForkBlock config) + 2048 = next
        then ETHWStartDifficulty P
        else if EthPoWForkBlock config \<noteq> None \<and> the (EthPoWForkBlock config) = next
        then 1
        else calcDifficultyEthPoW P time parent)
     else if IsGrayGlacier config next then calcDifficultyEip5133 P time parent
     else if IsArrowGlacier config next then calcDifficultyEip4345 P time parent
     else if IsLondon config next then calcDifficultyEip3554 P time parent
     else if IsMuirGlacier config next then calcDifficultyEip2384 P time parent
     else if IsConstantinople config next then calcDifficultyConstantinople P time parent
     else if IsByzantium config next then calcDifficultyByzantium P time parent
     else if IsHomestead config next then calcDifficultyHomestead time parent
     else calcDifficultyFrontier time parent)"

subsection \<open>The hybrid difficulty\<close>

definition minimumDifficulty :: int where "minimumDifficulty = 131072"
definition stakeWeight :: int where "stakeWeight = 50"
definition transactionWeight :: int where "transactionWeight = 30"
definition trustWeight :: int where "trustWeight = 20"
definition powWeight :: int where "powWeight = 100"
definition totalWeight :: int where "totalWeight = 200"

definition CalcCustomDifficulty ::
    "Params \<Rightarrow> ChainConfig \<Rightarrow> uint64 \<Rightarrow> Header \<Rightarrow> int \<Rightarrow> int \<Rightarrow> int \<Rightarrow> int" where
  "CalcCustomDifficulty P config time parent posFactor potFactor trustFactor =
    (let powDifficulty = CalcDifficulty P config time parent;
         posDifficulty = powDifficulty * stakeWeight;
         posDifficulty = posDifficulty * posFactor;
         posDifficulty = bigDiv posDifficulty totalWeight;
         potDifficulty = powDifficulty * transactionWeight;
         potDifficulty = potDifficulty * potFactor;
         potDifficulty = bigDiv potDifficulty totalWeight;
         trustDifficulty = powDifficulty * trustWeight;
         trustDifficulty = trustDifficulty * trustFactor;
         trustDifficulty = bigDiv trustDifficulty totalWeight;
         finalDifficulty = powDifficulty + posDifficulty;
         finalDifficulty = finalDifficulty + potDifficulty;
         finalDifficulty = finalDifficulty + trustDifficulty
     in if finalDifficulty < minimumDifficulty then minimumDifficulty else finalDifficulty)"

subsection \<open>The difficulty bomb of the spec\<close>

text \<open>The bomb term as the spec words it, to be compared with the calculators above: the
  period count is \<open>max(0, blockNumber - bombDelay) / 100000\<close>; the term is zero up to
  period 1 and \<open>2^(periodCount - 2)\<close> from period 2 on.\<close>

definition bombTerm :: "int \<Rightarrow> int \<Rightarrow> int" where
  "bombTerm bombDelay blockNumber =
    (let periodCount = max 0 (blockNumber - bombDelay) div 100000
     in if periodCount \<le> 1 then 0 else 2 ^ nat (periodCount - 2))"

subsection \<open>The stake registry\<close>

text \<open>A stake is a \<^verbatim>\<open>*big.Int\<close>: \<^verbatim>\<open>UpdateValidator\<close> stores the pointer it is given in the
  new validator and later adds to the object in place, so the big integers live in an
  explicit store. A reference is an index into the list of the \<^verbatim>\<open>big.Int\<close> objects
  allocated so far; \<^verbatim>\<open>big.NewInt\<close> appends one. The stake argument is a valid (non-nil)
  reference.\<close>

type_synonym ref = nat
type_synonym bigstore = "int list"

definition NewInt :: "bigstore \<Rightarrow> int \<Rightarrow> ref \<times> bigstore" where
  "NewInt h v = (length h, h @ [v])"

text \<open>\<^verbatim>\<open>z.Add(x, y)\<close> writes the sum into the object \<open>z\<close>; the operands may be \<open>z\<close> itself.\<close>

definition Add :: "bigstore \<Rightarrow> ref \<Rightarrow> ref \<Rightarrow> ref \<Rightarrow> bigstore" where
  "Add h z x y = h[z := h ! x + h ! y]"

record Validator =
  Address :: address
  Stake :: ref
  LastReward :: uint64
  Uptime :: uint64
  IsValidator :: bool

record PoS =
  Validators :: "address \<rightharpoonup> Validator"
  TotalStake :: ref

definition NewPoS :: "bigstore \<Rightarrow> PoS \<times> bigstore" where
  "NewPoS h = (let (t, h) = NewInt h 0 in (\<lparr>Validators = Map.empty, TotalStake = t\<rparr>, h))"

text \<open>The map holds pointers to the validators, so the final assignment to
  \<^verbatim>\<open>validator.LastReward\<close> is seen through the map in both branches.\<close>

definition UpdateValidator :: "PoS \<Rightarrow> bigstore \<Rightarrow> address \<Rightarrow> ref \<Rightarrow> uint64 \<Rightarrow> PoS \<times> bigstore" where
  "UpdateValidator pos h address stake blockNumber =
    (case Validators pos address of
       None \<Rightarrow>
         (let validator = \<lparr>Address = address, Stake = stake, LastReward = 0, Uptime = 0,
                           IsValidator = True\<rparr>;
              h = Add h (TotalStake pos) (TotalStake pos) stake;
              validator = validator\<lparr>LastReward := blockNumber\<rparr>
          in (pos\<lparr>Validators := (Validators pos)(address \<mapsto> validator)\<rparr>, h))
     | Some validator \<Rightarrow>
         (let h = Add h (Stake validator) (Stake validator) stake;
              validator = validator\<lparr>LastReward := blockNumber\<rparr>
          in (pos\<lparr>Validators := (Validators pos)(address \<mapsto> validator)\<rparr>, h)))"

text \<open>Reading the registry: the value of the total, and of one validator's stake.\<close>

definition totalStake :: "PoS \<times> bigstore \<Rightarrow> int" where
  "totalStake st = snd st ! TotalStake (fst st)"

definition stakeOf :: "PoS \<times> bigstore \<Rightarrow> address \<Rightarrow> int option" where
  "stakeOf st a = map_option (\<lambda>v. snd st ! Stake v) (Validators (fst st) a)"

text \<open>A sequence of calls, each with the address, the stake object and the block number.
  \<open>firstCallSum\<close> adds up the amounts passed in each address's first call, read when the
  call is made.\<close>

fun updateAll :: "PoS \<times> bigstore \<Rightarrow> (address \<times> ref \<times> uint64) list \<Rightarrow> PoS \<times> bigstore" where
  "updateAll st [] = st"
| "updateAll st ((a, l, n) # cs) = updateAll (UpdateValidator (fst st) (snd st) a l n) cs"

fun firstCallSum :: "address set \<Rightarrow> PoS \<times> bigstore \<Rightarrow> (address \<times> ref \<times> uint64) list \<Rightarrow> int" where
  "firstCallSum seen st [] = 0"
| "firstCallSum seen st ((a, l, n) # cs) =
     (if a \<in> seen then 0 else snd st ! l)
     + firstCallSum (insert a seen) (UpdateValidator (fst st) (snd st) a l n) cs"

subsection \<open>The transaction registry\<close>

record TransactionRecord =
  Address_tr :: address
  TransactionCount :: uint64
  LastTransaction :: uint64

record PoT =
  TransactionRecords :: "address \<rightharpoonup> TransactionRecord"
  TotalTransactions :: uint64

definition NewPoT :: PoT where
  "NewPoT = \<lparr>TransactionRecords = Map.empty, TotalTransactions = 0\<rparr>"

definition RecordTransaction :: "PoT \<Rightarrow> address \<Rightarrow> uint64 \<Rightarrow> PoT" where
  "RecordTransaction pot address blockNumber =
    (case TransactionRecords pot address of
       None \<Rightarrow>
         (let record = \<lparr>Address_tr = address, TransactionCount = 1,
                        LastTransaction = blockNumber\<rparr>
          in pot\<lparr>TransactionRecords := (TransactionRecords pot)(address \<mapsto> record),
                 TotalTransactions := TotalTransactions pot + 1\<rparr>)
     | Some record \<Rightarrow>
         (let record = record\<lparr>TransactionCount := TransactionCount record + 1\<rparr>;
              record = record\<lparr>LastTransaction := blockNumber\<rparr>
          in pot\<lparr>TransactionRecords := (TransactionRecords pot)(address \<mapsto> record)\<rparr>))"

fun recordAll :: "PoT \<Rightarrow> (address \<times> uint64) list \<Rightarrow> PoT" where
  "recordAll pot [] = pot"
| "recordAll pot ((a, n) # cs) = recordAll (RecordTransaction pot a n) cs"

subsection \<open>Block rewards\<close>

text \<open>Modelled from the spec: the state collaborator \<^verbatim>\<open>state.StateDB\<close> is outside the
  sources; the spec says it provides \<^verbatim>\<open>AddBalance(address, amount)\<close>. The state is the
  balance of every address, and \<^verbatim>\<open>AddBalance\<close> adds the amount to one of them.\<close>

type_synonym StateDB = "address \<Rightarrow> int"

definition AddBalance :: "StateDB \<Rightarrow> address \<Rightarrow> int \<Rightarrow> StateDB" where
  "AddBalance state a amount = state(a := state a + amount)"

text \<open>The sources use the type \<^verbatim>\<open>Participant\<close> without declaring it; these are the fields
  that \<^verbatim>\<open>calculateIndividualReward\<close> and \<^verbatim>\<open>distributePoSPoTRewards\<close> read.\<close>

record Participant =
  Address_p :: address
  Stake_p :: int
  TransactionCount_p :: uint64
  UptimePercentage :: uint64

definition calculateIndividualReward :: "Participant \<Rightarrow> int \<Rightarrow> int" where
  "calculateIndividualReward participant totalReward =
    (let stakeFactor = Stake_p participant;
         transactionFactor = uint (TransactionCount_p participant);
         uptimeFactor = uint (UptimePercentage participant);
         reward = stakeFactor * transactionFactor;
         reward = reward * uptimeFactor;
         reward = bigDiv reward 10000
     in if totalReward < reward then totalReward else reward)"

definition getPoSAndPoTParticipants :: "Participant list" where
  "getPoSAndPoTParticipants = []"

definition distributePoSPoTRewards :: "StateDB \<Rightarrow> Header \<Rightarrow> int \<Rightarrow> StateDB" where
  "distributePoSPoTRewards state header reward =
     fold (\<lambda>participant state.
             AddBalance state (Address_p participant)
               (calculateIndividualReward participant reward))
          getPoSAndPoTParticipants state"

text \<open>The loop over the uncles of \<^verbatim>\<open>accumulateRewards\<close>, on the state and the miner's
  running reward.\<close>

fun uncleRewards :: "int \<Rightarrow> int \<Rightarrow> Header \<Rightarrow> Header list \<Rightarrow> StateDB \<times> int \<Rightarrow> StateDB \<times> int" where
  "uncleRewards blockReward powReward header [] (state, reward) = (state, reward)"
| "uncleRewards blockReward powReward header (uncle # uncles) (state, reward) =
    (let r = Number uncle + big8;
         r = r - Number header;
         r = r * blockReward;
         r = bigDiv r big8;
         state = AddBalance state (Coinbase uncle) r;
         r = bigDiv powReward big32;
         reward = reward + r
     in uncleRewards blockReward powReward header uncles (state, reward))"

definition accumulateRewards :: "ChainConfig \<Rightarrow> StateDB \<Rightarrow> Header \<Rightarrow> Header list \<Rightarrow> StateDB" where
  "accumulateRewards config state header uncles =
    (let blockReward = 1000000000000000000;
         powReward = blockReward;
         posPotReward = blockReward;
         reward = powReward;
         (state, reward) = uncleRewards blockReward powReward header uncles (state, reward);
         state = AddBalance state (Coinbase header) reward
     in distributePoSPoTRewards state header posPotReward)"

subsection \<open>Errors, the engine and its collaborators\<close>

text \<open>The errors of the engine. An error built with \<^verbatim>\<open>fmt.Errorf\<close> is a constructor with
  the values of its message; \<open>errMisc\<close> is an error returned by package \<^verbatim>\<open>misc\<close>. A
  function that returns \<^verbatim>\<open>error\<close> returns \<open>None\<close> for nil.\<close>

datatype error =
    ErrUnknownAncestor
  | ErrFutureBlock
  | ErrInvalidNumber
  | errOlderBlockTime
  | errTooManyUncles
  | errDuplicateUncle
  | errUncleIsAncestor
  | errDanglingUncle
  | errInvalidDifficulty
  | errInvalidMixDigest
  | errInvalidPoW
  | errExtraDataTooLong nat uint64
  | errWrongDifficulty int int
  | errGasLimitTooHigh uint64 uint64
  | errGasUsedTooHigh uint64 uint64
  | errBaseFeeBeforeFork int
  | errMisc string

datatype Mode = ModeNormal | ModeShared | ModeTest | ModeFake | ModeFullFake

record Config =
  PowMode :: Mode

text \<open>The engine: its configuration, the block number at which a fake engine fails, the
  delay of a fake engine, and the shared engine it delegates to, if any.\<close>

datatype Ethash = Ethash (config: Config) (fakeFail: uint64) (fakeDelay: nat)
  (shared: "Ethash option")

datatype rlp = RlpHash hash | RlpAddress address | RlpBytes bytes | RlpBig int | RlpUint uint64

text \<open>Modelled from the spec: the collaborators that are outside the sources. The spec's
  dataset and cache collaborator gives, for a block number, a full dataset or a light cache
  and a hashing function that returns the mix digest and the result for a seal hash and a
  nonce; here \<open>hashimotoFull\<close> and \<open>hashimotoLight\<close> take the engine's configuration and the
  block number in place of the dataset and the cache. \<open>HeaderHash\<close> is the hash of a
  header, \<open>keccak256rlp\<close> the Keccak-256 hash of an RLP encoding, and the last four are
  the checks of package \<^verbatim>\<open>misc\<close>.\<close>

record Collaborators =
  HeaderHash :: "Header \<Rightarrow> hash"
  keccak256rlp :: "rlp list \<Rightarrow> hash"
  generated :: "Config \<Rightarrow> uint64 \<Rightarrow> bool"
  datasetSize :: "uint64 \<Rightarrow> uint64"
  hashimotoFull :: "Config \<Rightarrow> uint64 \<Rightarrow> bytes \<Rightarrow> uint64 \<Rightarrow> bytes \<times> bytes"
  hashimotoLight :: "uint64 \<Rightarrow> Config \<Rightarrow> uint64 \<Rightarrow> bytes \<Rightarrow> uint64 \<Rightarrow> bytes \<times> bytes"
  VerifyGaslimit :: "uint64 \<Rightarrow> uint64 \<Rightarrow> error option"
  VerifyEip1559Header :: "ChainConfig \<Rightarrow> Header \<Rightarrow> Header \<Rightarrow> error option"
  VerifyDAOHeaderExtraData :: "ChainConfig \<Rightarrow> Header \<Rightarrow> error option"
  VerifyForkHashes :: "ChainConfig \<Rightarrow> Header \<Rightarrow> bool \<Rightarrow> error option"

text \<open>\<^verbatim>\<open>big.Int.Uint64\<close> gives the low 64 bits of the magnitude.\<close>

definition Uint64 :: "int \<Rightarrow> uint64" where
  "Uint64 x = word_of_int \<bar>x\<bar>"

text \<open>The 32 bytes of a hash, most significant first, and \<^verbatim>\<open>big.Int.SetBytes\<close>, which reads
  a byte slice as a big-endian unsigned integer.\<close>

definition hashBytes :: "hash \<Rightarrow> bytes" where
  "hashBytes h = map (\<lambda>i. ucast (drop_bit (8 * (31 - i)) h)) [0..<32]"

definition SetBytes :: "bytes \<Rightarrow> int" where
  "SetBytes buf = foldl (\<lambda>acc b. acc * 256 + uint b) 0 buf"

definition two256 :: int where
  "two256 = 2 ^ 256"

subsection \<open>The seal\<close>

definition SealHash :: "Collaborators \<Rightarrow> Header \<Rightarrow> hash" where
  "SealHash env header =
    (let enc = [RlpHash (ParentHash header), RlpHash (UncleHash header),
                RlpAddress (Coinbase header), RlpHash (Root header), RlpHash (TxHash header),
                RlpHash (ReceiptHash header), RlpBytes (Bloom header),
                RlpBig (Difficulty header), RlpBig (Number header),
                RlpUint (GasLimit header), RlpUint (GasUsed header), RlpUint (Time header),
                RlpBytes (Extra header)];
         enc = (case BaseFee header of None \<Rightarrow> enc | Some fee \<Rightarrow> enc @ [RlpBig fee])
     in keccak256rlp env enc)"

text \<open>The part of \<^verbatim>\<open>verifySeal\<close> that obtains the digest and the result: from the full
  dataset when it is asked for and generated, from the light cache otherwise.\<close>

definition computeSeal :: "Collaborators \<Rightarrow> Config \<Rightarrow> Header \<Rightarrow> bool \<Rightarrow> bytes \<times> bytes" where
  "computeSeal env cfg header fulldag =
    (let number = Uint64 (Number header);
         (digest, result, fulldag) =
           (if fulldag then
              (if generated env cfg number
               then (let (digest, result) =
                           hashimotoFull env cfg number (hashBytes (SealHash env header))
                             (Nonce header)
                     in (digest, result, fulldag))
               else ([], [], False))
            else ([], [], fulldag))
     in if \<not> fulldag then
          (let size = datasetSize env number;
               size = (if PowMode cfg = ModeTest then 32 * 1024 else size)
           in hashimotoLight env size cfg number (hashBytes (SealHash env header)) (Nonce header))
        else (digest, result))"

fun verifySeal :: "Collaborators \<Rightarrow> Ethash \<Rightarrow> Header \<Rightarrow> bool \<Rightarrow> error option" where
  "verifySeal env (Ethash cfg fail delay sh) header fulldag =
    (if PowMode cfg = ModeFake \<or> PowMode cfg = ModeFullFake then
       (if fail = Uint64 (Number header) then Some errInvalidPoW else None)
     else case sh of
       Some s \<Rightarrow> verifySeal env s header fulldag
     | None \<Rightarrow>
         if Difficulty header \<le> 0 then Some errInvalidDifficulty
         else (let (digest, result) = computeSeal env cfg header fulldag in
               if hashBytes (MixDigest header) \<noteq> digest then Some errInvalidMixDigest
               else (let target = bigDiv two256 (Difficulty header) in
                     if target < SetBytes result then Some errInvalidPoW else None)))"

text \<open>The engine that checks the seal for an engine that is not fake: the end of the chain
  of shared engines. \<open>noFake\<close> says that no engine on the way is in a fake mode.\<close>

fun sealer :: "Ethash \<Rightarrow> Ethash" where
  "sealer (Ethash cfg fail delay None) = Ethash cfg fail delay None"
| "sealer (Ethash cfg fail delay (Some s)) = sealer s"

fun noFake :: "Ethash \<Rightarrow> bool" where
  "noFake (Ethash cfg fail delay sh) =
     (PowMode cfg \<noteq> ModeFake \<and> PowMode cfg \<noteq> ModeFullFake
      \<and> (case sh of None \<Rightarrow> True | Some s \<Rightarrow> noFake s))"

subsection \<open>Header verification\<close>

record Block =
  header :: Header
  uncles :: "Header list"

text \<open>Modelled from the spec: the chain reader collaborator, which is outside the sources,
  provides \<^verbatim>\<open>GetHeader(hash, number)\<close> and \<^verbatim>\<open>GetBlock(hash, number)\<close>, each absent or
  present, and the chain configuration.\<close>

record Chain =
  GetHeader :: "hash \<Rightarrow> uint64 \<Rightarrow> Header option"
  GetBlock :: "hash \<Rightarrow> uint64 \<Rightarrow> Block option"
  ChainConfigOf :: ChainConfig

definition maxUncles :: nat where
  "maxUncles = 2"

definition allowedFutureBlockTimeSeconds :: uint64 where
  "allowedFutureBlockTimeSeconds = 15"

text \<open>\<^verbatim>\<open>verifyHeader\<close>: the checks in the order of the source, the first failing one giving
  the error. \<open>unixNow\<close> is an \<^verbatim>\<open>int64\<close>; the sum with the allowed skew is converted to
  \<^verbatim>\<open>uint64\<close>, which keeps the 64 bits.\<close>

definition verifyHeader ::
    "Collaborators \<Rightarrow> Params \<Rightarrow> Ethash \<Rightarrow> Chain \<Rightarrow> Header \<Rightarrow> Header \<Rightarrow> bool \<Rightarrow> bool \<Rightarrow> uint64
      \<Rightarrow> error option" where
  "verifyHeader env P e chain hdr parent uncle seal unixNow =
    (if MaximumExtraDataSize P < of_nat (length (Extra hdr))
     then Some (errExtraDataTooLong (length (Extra hdr)) (MaximumExtraDataSize P))
     else if \<not> uncle \<and> unixNow + allowedFutureBlockTimeSeconds < Time hdr
     then Some ErrFutureBlock
     else if Time hdr \<le> Time parent then Some errOlderBlockTime
     else
      (let expected = CalcDifficulty P (ChainConfigOf chain) (Time hdr) parent in
       if expected \<noteq> Difficulty hdr then Some (errWrongDifficulty (Difficulty hdr) expected)
       else if MaxGasLimit P < GasLimit hdr
       then Some (errGasLimitTooHigh (GasLimit hdr) (MaxGasLimit P))
       else if GasLimit hdr < GasUsed hdr
       then Some (errGasUsedTooHigh (GasUsed hdr) (GasLimit hdr))
       else
        (case (if \<not> IsLondon (ChainConfigOf chain) (Number hdr)
               then (case BaseFee hdr of
                       Some fee \<Rightarrow> Some (errBaseFeeBeforeFork fee)
                     | None \<Rightarrow> VerifyGaslimit env (GasLimit parent) (GasLimit hdr))
               else VerifyEip1559Header env (ChainConfigOf chain) parent hdr) of
           Some err \<Rightarrow> Some err
         | None \<Rightarrow>
             if Number hdr - Number parent \<noteq> 1 then Some ErrInvalidNumber
             else
              (case (if seal then verifySeal env e hdr False else None) of
                 Some err \<Rightarrow> Some err
               | None \<Rightarrow>
                  (case VerifyDAOHeaderExtraData env (ChainConfigOf chain) hdr of
                     Some err \<Rightarrow> Some err
                   | None \<Rightarrow> VerifyForkHashes env (ChainConfigOf chain) hdr uncle)))))"

definition VerifyHeader ::
    "Collaborators \<Rightarrow> Params \<Rightarrow> Ethash \<Rightarrow> Chain \<Rightarrow> uint64 \<Rightarrow> Header \<Rightarrow> bool \<Rightarrow> error option" where
  "VerifyHeader env P e chain unixNow hdr seal =
    (if PowMode (config e) = ModeFullFake then None
     else
      (let number = Uint64 (Number hdr) in
       if GetHeader chain (HeaderHash env hdr) number \<noteq> None then None
       else (case GetHeader chain (ParentHash hdr) (number - 1) of
               None \<Rightarrow> Some ErrUnknownAncestor
             | Some parent \<Rightarrow> verifyHeader env P e chain hdr parent False seal unixNow)))"

subsection \<open>Uncle verification\<close>

text \<open>The first loop of \<^verbatim>\<open>VerifyUncles\<close> walks up to seven ancestors and gathers their
  headers and the hashes of their uncles; it stops at the first missing header or block.
  The block number is a \<^verbatim>\<open>uint64\<close> and wraps around below zero.\<close>

fun gatherAncestors ::
    "Params \<Rightarrow> Collaborators \<Rightarrow> Chain \<Rightarrow> nat \<Rightarrow> hash set \<times> (hash \<rightharpoonup> Header) \<Rightarrow> uint64 \<Rightarrow> hash
      \<Rightarrow> hash set \<times> (hash \<rightharpoonup> Header)" where
  "gatherAncestors P env chain 0 (uncleSet, ancestors) number parent = (uncleSet, ancestors)"
| "gatherAncestors P env chain (Suc k) (uncleSet, ancestors) number parent =
    (case GetHeader chain parent number of
       None \<Rightarrow> (uncleSet, ancestors)
     | Some ancestorHeader \<Rightarrow>
        (let ancestors = ancestors(parent \<mapsto> ancestorHeader) in
         if UncleHash ancestorHeader \<noteq> EmptyUncleHash P then
           (case GetBlock chain parent number of
              None \<Rightarrow> (uncleSet, ancestors)
            | Some ancestor \<Rightarrow>
               (let uncleSet = fold (\<lambda>uncle s. insert (HeaderHash env uncle) s)
                                 (uncles ancestor) uncleSet
                in gatherAncestors P env chain k (uncleSet, ancestors) (number - 1)
                     (ParentHash ancestorHeader)))
         else gatherAncestors P env chain k (uncleSet, ancestors) (number - 1)
                (ParentHash ancestorHeader)))"

text \<open>The second loop checks the uncles of the block in turn. Each uncle is verified as an
  uncle, with its seal; the clock is read for every uncle, and \<^verbatim>\<open>verifyHeader\<close> does not
  look at it for an uncle.\<close>

fun checkUncles ::
    "Collaborators \<Rightarrow> Params \<Rightarrow> Ethash \<Rightarrow> Chain \<Rightarrow> uint64 \<Rightarrow> Block \<Rightarrow> (hash \<rightharpoonup> Header)
      \<Rightarrow> Header list \<Rightarrow> hash set \<Rightarrow> error option" where
  "checkUncles env P e chain unixNow block ancestors [] uncleSet = None"
| "checkUncles env P e chain unixNow block ancestors (uncle # rest) uncleSet =
    (let hash = HeaderHash env uncle in
     if hash \<in> uncleSet then Some errDuplicateUncle
     else
      (let uncleSet = insert hash uncleSet in
       if ancestors hash \<noteq> None then Some errUncleIsAncestor
       else if ancestors (ParentHash uncle) = None
               \<or> ParentHash uncle = ParentHash (header block)
       then Some errDanglingUncle
       else
        (case verifyHeader env P e chain uncle (the (ancestors (ParentHash uncle)))
                True True unixNow of
           Some err \<Rightarrow> Some err
         | None \<Rightarrow> checkUncles env P e chain unixNow block ancestors rest uncleSet)))"

definition VerifyUncles ::
    "Collaborators \<Rightarrow> Params \<Rightarrow> Ethash \<Rightarrow> Chain \<Rightarrow> uint64 \<Rightarrow> Block \<Rightarrow> error option" where
  "VerifyUncles env P e chain unixNow block =
    (if PowMode (config e) = ModeFullFake then None
     else if maxUncles < length (uncles block) then Some errTooManyUncles
     else if length (uncles block) = 0 then None
     else
      (let number = Uint64 (Number (header block)) - 1;
           parent = ParentHash (header block);
           (uncleSet, ancestors) = gatherAncestors P env chain 7 ({}, Map.empty) number parent;
           ancestors = ancestors(HeaderHash env (header block) \<mapsto> header block);
           uncleSet = insert (HeaderHash env (header block)) uncleSet
       in checkUncles env P e chain unixNow block ancestors (uncles block) uncleSet))"

text \<open>\<^verbatim>\<open>VerifyUncles\<close> as the second loop on the sets that the first loop gathers.\<close>

definition gathered :: "Collaborators \<Rightarrow> Params \<Rightarrow> Chain \<Rightarrow> Block \<Rightarrow> hash set \<times> (hash \<rightharpoonup> Header)" where
  "gathered env P chain b =
     (let (uncleSet, ancestors) = gatherAncestors P env chain 7 ({}, Map.empty)
            (Uint64 (Number (header b)) - 1) (ParentHash (header b))
      in (insert (HeaderHash env (header b)) uncleSet,
          ancestors(HeaderHash env (header b) \<mapsto> header b)))"

subsection \<open>Batch verification\<close>

text \<open>A call that indexes a slice out of range panics; \<open>Panics\<close> is that outcome.\<close>

datatype 'a outcome = Panics | Returns 'a

definition verifyHeaderWorker ::
    "Collaborators \<Rightarrow> Params \<Rightarrow> Ethash \<Rightarrow> Chain \<Rightarrow> Header list \<Rightarrow> bool list \<Rightarrow> nat \<Rightarrow> uint64
      \<Rightarrow> error option outcome" where
  "verifyHeaderWorker env P e chain headers seals index unixNow =
    (if length headers \<le> index then Panics
     else
      (let parent =
             (if index = 0
              then GetHeader chain (ParentHash (headers ! 0)) (Uint64 (Number (headers ! 0)) - 1)
              else if HeaderHash env (headers ! (index - 1)) = ParentHash (headers ! index)
              then Some (headers ! (index - 1))
              else None)
       in case parent of
            None \<Rightarrow> Returns (Some ErrUnknownAncestor)
          | Some parent \<Rightarrow>
              if length seals \<le> index then Panics
              else Returns (verifyHeader env P e chain (headers ! index) parent False
                              (seals ! index) unixNow)))"

text \<open>\<^verbatim>\<open>VerifyHeaders\<close> starts a pool of worker goroutines and a coordinator goroutine, which
  share the slice \<open>errors\<close> and the channels \<open>inputs\<close> (unbuffered) and \<open>done\<close> (buffered,
  with room for one index per worker). The goroutines are modelled by a transition system:
  the state holds the variables of the closures, the place of every worker in its loop
  and the content of the channels, and an event is one communication or one statement
  of one goroutine. Any order of events that the state allows is a run.

  A worker waits for an index on \<open>inputs\<close>, then verifies the header of that index, then
  has written the result to \<open>errors\<close> and sends the index on \<open>done\<close>.\<close>

datatype worker = Waiting | Verifying nat | Sending nat

record VerifyState =
  workers :: "worker list"
  doneCh :: "nat list"
  errors :: "error option list"
  checked :: "bool list"
  inIndex :: nat
  outIndex :: nat
  inputs :: bool
  errorsOut :: "error option list"
  returned :: bool
  aborted :: bool
  panicked :: bool

text \<open>\<open>inputs\<close> is false once the coordinator has set its copy of the channel to nil,
  \<open>errorsOut\<close> is what has been sent on the results channel so far, in the order of
  sending (the channel has room for one result per header, so a send does not wait for the
  reader), \<open>returned\<close> says that the coordinator has returned, \<open>aborted\<close> that it did so on
  the abort channel, and \<open>panicked\<close> that a goroutine has indexed a slice out of range,
  which ends the program.\<close>

datatype event = Dispatch nat | Verify nat | Send nat | Receive | Abort

text \<open>The inner loop of the coordinator after it has marked an index as checked:
  \<^verbatim>\<open>for ...; checked[out]; out++ { errorsOut <- errors[out]; if out == len(headers)-1 { return } }\<close>.\<close>

function drain :: "nat \<Rightarrow> VerifyState \<Rightarrow> VerifyState" where
  "drain n st =
    (if length (checked st) \<le> outIndex st then st\<lparr>panicked := True\<rparr>
     else if \<not> checked st ! outIndex st then st
     else if length (errors st) \<le> outIndex st then st\<lparr>panicked := True\<rparr>
     else
      (let st = st\<lparr>errorsOut := errorsOut st @ [errors st ! outIndex st]\<rparr> in
       if int (outIndex st) = int n - 1 then st\<lparr>returned := True\<rparr>
       else drain n (st\<lparr>outIndex := outIndex st + 1\<rparr>)))"
  by pat_completeness auto
termination
  by (relation "measure (\<lambda>(n, st). length (checked st) - outIndex st)") auto

text \<open>One event. \<open>Dispatch k\<close>: the coordinator's send on \<open>inputs\<close> meets the receive of the
  waiting worker \<open>k\<close>. \<open>Verify k\<close>: worker \<open>k\<close> runs \<^verbatim>\<open>verifyHeaderWorker\<close> and stores the
  result. \<open>Send k\<close>: worker \<open>k\<close> puts its index into \<open>done\<close>, which needs room there.
  \<open>Receive\<close>: the coordinator takes the first index out of \<open>done\<close>. \<open>Abort\<close>: the
  coordinator finds the abort channel closed. An event that the state does not allow gives
  \<open>None\<close>.\<close>

fun step :: "(nat \<Rightarrow> error option outcome) \<Rightarrow> nat \<Rightarrow> VerifyState \<Rightarrow> event \<Rightarrow> VerifyState option" where
  "step verify n st (Dispatch k) =
    (if \<not> panicked st \<and> \<not> returned st \<and> inputs st \<and> k < length (workers st)
        \<and> workers st ! k = Waiting
     then
      (let st = st\<lparr>workers := (workers st)[k := Verifying (inIndex st)]\<rparr>;
           st = st\<lparr>inIndex := inIndex st + 1\<rparr>
       in Some (if inIndex st = n then st\<lparr>inputs := False\<rparr> else st))
     else None)"
| "step verify n st (Verify k) =
    (if \<not> panicked st \<and> k < length (workers st) then
      (case workers st ! k of
         Verifying index \<Rightarrow>
          (case verify index of
             Panics \<Rightarrow> Some (st\<lparr>panicked := True\<rparr>)
           | Returns r \<Rightarrow>
              if length (errors st) \<le> index then Some (st\<lparr>panicked := True\<rparr>)
              else Some (st\<lparr>errors := (errors st)[index := r],
                            workers := (workers st)[k := Sending index]\<rparr>))
       | _ \<Rightarrow> None)
     else None)"
| "step verify n st (Send k) =
    (if \<not> panicked st \<and> k < length (workers st) then
      (case workers st ! k of
         Sending index \<Rightarrow>
          if length (doneCh st) < length (workers st)
          then Some (st\<lparr>doneCh := doneCh st @ [index], workers := (workers st)[k := Waiting]\<rparr>)
          else None
       | _ \<Rightarrow> None)
     else None)"
| "step verify n st Receive =
    (if \<not> panicked st \<and> \<not> returned st then
      (case doneCh st of
         [] \<Rightarrow> None
       | index # rest \<Rightarrow>
          if length (checked st) \<le> index then Some (st\<lparr>panicked := True\<rparr>)
          else Some (drain n (st\<lparr>doneCh := rest, checked := (checked st)[index := True]\<rparr>)))
     else None)"
| "step verify n st Abort =
    (if \<not> panicked st \<and> \<not> returned st
     then Some (st\<lparr>returned := True, aborted := True\<rparr>) else None)"

fun run :: "(nat \<Rightarrow> error option outcome) \<Rightarrow> nat \<Rightarrow> VerifyState \<Rightarrow> event list \<Rightarrow> VerifyState option" where
  "run verify n st [] = Some st"
| "run verify n st (ev # evs) =
    (case step verify n st ev of None \<Rightarrow> None | Some st \<Rightarrow> run verify n st evs)"

text \<open>\<^verbatim>\<open>VerifyHeaders\<close> up to the return of the two channels: in the full-fake mode, or without
  headers, it fills the results channel with nil and starts no goroutine; otherwise it
  starts \<open>min(GOMAXPROCS, len(headers))\<close> workers and the coordinator. \<open>procs\<close> is
  \<^verbatim>\<open>runtime.GOMAXPROCS(0)\<close>, which is at least 1.\<close>

definition VerifyHeaders :: "Ethash \<Rightarrow> nat \<Rightarrow> Header list \<Rightarrow> VerifyState" where
  "VerifyHeaders e procs headers =
    (if PowMode (config e) = ModeFullFake \<or> length headers = 0 then
       \<lparr>workers = [], doneCh = [], errors = [], checked = [], inIndex = 0, outIndex = 0,
        inputs = False, errorsOut = replicate (length headers) None, returned = True,
        aborted = False, panicked = False\<rparr>
     else
      (let workers = procs;
           workers = (if length headers < workers then length headers else workers)
       in \<lparr>workers = replicate workers Waiting, doneCh = [],
           errors = replicate (length headers) None,
           checked = replicate (length headers) False, inIndex = 0, outIndex = 0,
           inputs = True, errorsOut = [], returned = False, aborted = False,
           panicked = False\<rparr>))"

text \<open>A run of the batch verification: the events \<open>evs\<close> from the state that
  \<^verbatim>\<open>VerifyHeaders\<close> leaves, with the clock read once.\<close>

definition verifyRun ::
    "Collaborators \<Rightarrow> Params \<Rightarrow> Ethash \<Rightarrow> Chain \<Rightarrow> nat \<Rightarrow> uint64 \<Rightarrow> Header list \<Rightarrow> bool list
      \<Rightarrow> event list \<Rightarrow> VerifyState option" where
  "verifyRun env P e chain procs unixNow headers seals evs =
     run (\<lambda>index. verifyHeaderWorker env P e chain headers seals index unixNow)
       (length headers) (VerifyHeaders e procs headers) evs"

text \<open>The result that belongs to the header at an index: nil in the full-fake mode, and
  what \<^verbatim>\<open>verifyHeaderWorker\<close> returns otherwise.\<close>

definition resultOf ::
    "Collaborators \<Rightarrow> Params \<Rightarrow> Ethash \<Rightarrow> Chain \<Rightarrow> uint64 \<Rightarrow> Header list \<Rightarrow> bool list \<Rightarrow> nat
      \<Rightarrow> error option" where
  "resultOf env P e chain unixNow headers seals index =
    (if PowMode (config e) = ModeFullFake then None
     else (case verifyHeaderWorker env P e chain headers seals index unixNow of
             Panics \<Rightarrow> None | Returns r \<Rightarrow> r))"

text \<open>The invariant of the batch verification. \<open>holds ws i\<close>: a worker has the index
  \<open>i\<close> in hand. \<open>shapeInv\<close>: no panic, the slices have one entry per header, and the
  channel \<open>inputs\<close> is live while indices remain. \<open>heldInv\<close>: every index in a worker's
  hand, in \<open>done\<close> or checked has been dispatched, and from the moment the worker sends it
  \<open>errors\<close> holds its result. \<open>coverInv\<close>: every dispatched index is in a worker's hand,
  in \<open>done\<close> or checked. \<open>outInv\<close>: the results sent are those of the first headers, in
  order; while the coordinator runs, \<open>out\<close> is the first index that is not checked, and once
  it has returned without abort all results are sent. \<open>workLeft\<close> bounds the number of
  events that can still happen.\<close>

definition holds :: "worker list \<Rightarrow> nat \<Rightarrow> bool" where
  "holds ws i \<longleftrightarrow> (\<exists>k < length ws. ws ! k = Verifying i \<or> ws ! k = Sending i)"

definition shapeInv :: "nat \<Rightarrow> VerifyState \<Rightarrow> bool" where
  "shapeInv n st \<longleftrightarrow>
     \<not> panicked st \<and> 0 < length (workers st)
   \<and> length (checked st) = n \<and> length (errors st) = n
   \<and> inIndex st \<le> n \<and> (inputs st \<longleftrightarrow> inIndex st < n)"

definition heldInv :: "(nat \<Rightarrow> error option outcome) \<Rightarrow> nat \<Rightarrow> VerifyState \<Rightarrow> bool" where
  "heldInv verify n st \<longleftrightarrow>
     (\<forall>i. holds (workers st) i \<longrightarrow> i < inIndex st)
   \<and> (\<forall>k < length (workers st). \<forall>i. workers st ! k = Sending i \<longrightarrow>
         verify i = Returns (errors st ! i))
   \<and> (\<forall>i \<in> set (doneCh st). i < inIndex st \<and> verify i = Returns (errors st ! i))
   \<and> (\<forall>i < n. checked st ! i \<longrightarrow> i < inIndex st \<and> verify i = Returns (errors st ! i))"

definition coverInv :: "VerifyState \<Rightarrow> bool" where
  "coverInv st \<longleftrightarrow>
     (\<forall>i < inIndex st. checked st ! i \<or> i \<in> set (doneCh st) \<or> holds (workers st) i)"

definition outInv :: "(nat \<Rightarrow> error option outcome) \<Rightarrow> nat \<Rightarrow> VerifyState \<Rightarrow> bool" where
  "outInv verify n st \<longleftrightarrow>
     (\<forall>j < length (errorsOut st). verify j = Returns (errorsOut st ! j))
   \<and> length (errorsOut st) \<le> n
   \<and> (\<not> returned st \<longrightarrow>
         length (errorsOut st) = outIndex st \<and> outIndex st < n \<and> \<not> checked st ! outIndex st)
   \<and> (returned st \<and> \<not> aborted st \<longrightarrow> length (errorsOut st) = n)"

definition batchInv :: "(nat \<Rightarrow> error option outcome) \<Rightarrow> nat \<Rightarrow> VerifyState \<Rightarrow> bool" where
  "batchInv verify n st \<longleftrightarrow>
     shapeInv n st \<and> heldInv verify n st \<and> coverInv st \<and> outInv verify n st"

fun load :: "worker \<Rightarrow> nat" where
  "load Waiting = 0"
| "load (Verifying i) = 3"
| "load (Sending i) = 2"

definition workLeft :: "nat \<Rightarrow> VerifyState \<Rightarrow> nat" where
  "workLeft n st = 4 * (n - inIndex st) + sum_list (map load (workers st))
     + length (doneCh st) + (if returned st then 0 else 1)"

subsection \<open>Invariants and sample data\<close>

text \<open>The total is an object of its own: no validator's stake is the registry's
  \<^verbatim>\<open>TotalStake\<close> object, and every stake is an allocated object.\<close>

definition noAlias :: "PoS \<times> bigstore \<Rightarrow> bool" where
  "noAlias st = (TotalStake (fst st) < length (snd st)
     \<and> (\<forall>a v. Validators (fst st) a = Some v \<longrightarrow> Stake v \<noteq> TotalStake (fst st)))"

definition validRefs :: "PoS \<times> bigstore \<Rightarrow> bool" where
  "validRefs st = (\<forall>a v. Validators (fst st) a = Some v \<longrightarrow> Stake v < length (snd st))"

definition exampleParams :: Params where
  "exampleParams = \<lparr>ETHWStartDifficulty = 131072,
     EmptyUncleHash = 0x1dcc4de8dec75d7aab85b567b6ccd41ad312451b948a7413f0a142fd40d49347,
     MaximumExtraDataSize = 32, MaxGasLimit = 0x7fffffffffffffff\<rparr>"

definition exampleConfig :: "int option \<Rightarrow> ChainConfig" where
  "exampleConfig ethpow = \<lparr>HomesteadBlock = Some 0, ByzantiumBlock = Some 0,
     ConstantinopleBlock = Some 0, MuirGlacierBlock = Some 0, LondonBlock = Some 0,
     ArrowGlacierBlock = None, GrayGlacierBlock = None, EthPoWForkBlock = ethpow\<rparr>"

definition exampleHeader :: "int \<Rightarrow> int \<Rightarrow> uint64 \<Rightarrow> Header" where
  "exampleHeader n d t = \<lparr>ParentHash = 0, UncleHash = 0, Coinbase = 0, Root = 0, TxHash = 0,
     ReceiptHash = 0, Bloom = [], Difficulty = d, Number = n, GasLimit = 0, GasUsed = 0,
     Time = t, Extra = [], MixDigest = 0, Nonce = 0, BaseFee = None\<rparr>"

definition alice :: address where "alice = 1"
definition bob :: address where "bob = 2"
definition carol :: address where "carol = 3"

definition stakers :: "PoS" where
  "stakers = \<lparr>Validators = [7 \<mapsto> \<lparr>Address = 7, Stake = 1, LastReward = 4, Uptime = 0,
      IsValidator = True\<rparr>], TotalStake = 2\<rparr>"

definition exampleEnv :: Collaborators where
  "exampleEnv = \<lparr>HeaderHash = (\<lambda>h. word_of_int (Number h)),
     keccak256rlp = (\<lambda>enc. 0),
     generated = (\<lambda>cfg n. False),
     datasetSize = (\<lambda>n. 1073739904),
     hashimotoFull = (\<lambda>cfg n h nonce. (hashBytes 0, [1])),
     hashimotoLight = (\<lambda>size cfg n h nonce. (hashBytes 0, [1])),
     VerifyGaslimit = (\<lambda>p h. None),
     VerifyEip1559Header = (\<lambda>c p h. None),
     VerifyDAOHeaderExtraData = (\<lambda>c h. None),
     VerifyForkHashes = (\<lambda>c h u. None)\<rparr>"

definition fakeEngine :: Ethash where
  "fakeEngine = Ethash \<lparr>PowMode = ModeFake\<rparr> 0 0 None"

definition normalEngine :: Ethash where
  "normalEngine = Ethash \<lparr>PowMode = ModeNormal\<rparr> 0 0 None"

definition emptyChain :: Chain where
  "emptyChain = \<lparr>GetHeader = (\<lambda>h n. None), GetBlock = (\<lambda>h n. None),
     ChainConfigOf = exampleConfig None\<rparr>"

definition twins :: Block where
  "twins = \<lparr>header = exampleHeader 10 1000000 1000,
     uncles = [exampleHeader 9 1000000 990, exampleHeader 9 1000000 990]\<rparr>"

definition exampleEnv2 :: Collaborators where
  "exampleEnv2 = exampleEnv\<lparr>HeaderHash := (\<lambda>h. word_of_int (Number h) + 256 * ucast (Nonce h))\<rparr>"

definition ancestor8 :: Header where
  "ancestor8 = (exampleHeader 8 1000000 980)\<lparr>UncleHash := EmptyUncleHash exampleParams\<rparr>"

definition ancestor9 :: Header where
  "ancestor9 = (exampleHeader 9 1000000 990)\<lparr>ParentHash := 8,
     UncleHash := EmptyUncleHash exampleParams\<rparr>"

definition shortChain :: Chain where
  "shortChain = \<lparr>GetHeader = (\<lambda>h n. if h = 9 \<and> n = 9 then Some ancestor9
                                   else if h = 8 \<and> n = 8 then Some ancestor8 else None),
     GetBlock = (\<lambda>h n. None), ChainConfigOf = exampleConfig None\<rparr>"

definition uncle9 :: Header where
  "uncle9 = (exampleHeader 9 1000000 990)\<lparr>ParentHash := 8, Nonce := 1\<rparr>"

definition block10 :: "Header list \<Rightarrow> Block" where
  "block10 us = \<lparr>header = (exampleHeader 10 1000000 1000)\<lparr>ParentHash := 9\<rparr>, uncles = us\<rparr>"

definition pair :: "Header list" where
  "pair = [exampleHeader 5 1000 1000, (exampleHeader 6 1000 1000)\<lparr>ParentHash := 5\<rparr>]"

definition lateFirst :: "event list" where
  "lateFirst = [Dispatch 0, Dispatch 1, Verify 1, Send 1, Receive, Verify 0, Send 0, Receive]"

section \<open>Verification\<close>

subsection \<open>Difficulty\<close>

lemma bigDiv_pos: "0 < y \<Longrightarrow> bigDiv x y = x div y"
  by (simp add: bigDiv_def)

lemma bigExp_pos: "0 < bigExp 2 y"
  by (simp add: bigExp_def)

lemma calcDifficultyEthPoW_floor: "MinimumDifficulty \<le> calcDifficultyEthPoW P t p"
  by (simp add: calcDifficultyEthPoW_def Let_def)

text \<open>A bomb-delay calculator is the EthPoW calculator, which is the same code without the
  bomb, plus the bomb term of the candidate block \<open>Number p + 1\<close>.\<close>

lemma makeDifficultyCalculator_split:
  "makeDifficultyCalculator bd P t p =
     calcDifficultyEthPoW P t p +
     (let periodCount = max 0 (Number p + 1 - bd) div 100000
      in if periodCount \<le> 1 then 0 else 2 ^ nat (periodCount - 2))"
proof -
  have r: "Number p - (bd - 1) = Number p + 1 - bd"
    by simp
  show ?thesis
    by (simp add: makeDifficultyCalculator_def calcDifficultyEthPoW_def Let_def bigDiv_pos
        bigExp_def big1_def big2_def expDiffPeriod_def max_def r)
qed

lemma makeDifficultyCalculator_floor: "MinimumDifficulty \<le> makeDifficultyCalculator bd P t p"
proof -
  have "0 \<le> (let periodCount = max 0 (Number p + 1 - bd) div 100000
      in if periodCount \<le> 1 then 0 else (2::int) ^ nat (periodCount - 2))"
    by (simp add: Let_def)
  with calcDifficultyEthPoW_floor [of P t p] show ?thesis
    unfolding makeDifficultyCalculator_split by linarith
qed

lemma calcDifficultyHomestead_floor: "MinimumDifficulty \<le> calcDifficultyHomestead t p"
  using bigExp_pos
  by (simp add: calcDifficultyHomestead_def Let_def big2_def add_increasing2 less_imp_le)

lemma calcDifficultyFrontier_floor: "MinimumDifficulty \<le> calcDifficultyFrontier t p"
  by (simp add: calcDifficultyFrontier_def Let_def BigMax_def)

lemma CalcDifficulty_floor:
  assumes "EthPoWForkBlock c \<noteq> Some (Number p + 1)"
    and "EthPoWForkBlock c \<noteq> Some (Number p + 1 - 2048)"
  shows "MinimumDifficulty \<le> CalcDifficulty P c t p"
proof -
  have a: "\<not> (EthPoWForkBlock c \<noteq> None \<and> the (EthPoWForkBlock c) + 2048 = Number p + big1)"
    using assms(2) by (auto simp: big1_def)
  have b: "\<not> (EthPoWForkBlock c \<noteq> None \<and> the (EthPoWForkBlock c) = Number p + big1)"
    using assms(1) by (auto simp: big1_def)
  show ?thesis
    unfolding CalcDifficulty_def Let_def if_not_P [OF a] if_not_P [OF b]
    by (simp add: calcDifficultyEthPoW_floor makeDifficultyCalculator_floor
        calcDifficultyHomestead_floor calcDifficultyFrontier_floor
        calcDifficultyEip5133_def calcDifficultyEip4345_def calcDifficultyEip3554_def
        calcDifficultyEip2384_def calcDifficultyConstantinople_def calcDifficultyByzantium_def)
qed

text \<open>The two resets of the EthPoW branch: the fork block itself gets difficulty 1, and the
  block 2048 later gets \<^verbatim>\<open>params.ETHWStartDifficulty\<close>.\<close>

lemma CalcDifficulty_reset:
  "EthPoWForkBlock c = Some (Number p + 1) \<Longrightarrow> CalcDifficulty P c t p = 1"
  by (simp add: CalcDifficulty_def Let_def IsEthPoWFork_def isForked_def big1_def)

lemma CalcDifficulty_restart:
  "EthPoWForkBlock c = Some (Number p + 1 - 2048) \<Longrightarrow>
     CalcDifficulty P c t p = ETHWStartDifficulty P"
  by (simp add: CalcDifficulty_def Let_def IsEthPoWFork_def isForked_def big1_def)

text \<open>C1, as the spec states it, fails: at the EthPoW fork block \<^verbatim>\<open>CalcDifficulty\<close> returns 1,
  which is below the minimum difficulty 131072.\<close>

theorem CalcDifficulty_minimum_counterexample:
  "CalcDifficulty exampleParams (exampleConfig (Some 10)) 2000 (exampleHeader 9 1000000 1000) = 1
   \<and> \<not> MinimumDifficulty \<le>
        CalcDifficulty exampleParams (exampleConfig (Some 10)) 2000 (exampleHeader 9 1000000 1000)"
  by (simp add: CalcDifficulty_def Let_def IsEthPoWFork_def isForked_def big1_def
      exampleConfig_def exampleHeader_def MinimumDifficulty_def)

text \<open>C1 (amended): for every chain configuration, candidate time and parent header,
  \<^verbatim>\<open>CalcDifficulty\<close> returns at least the minimum difficulty in every epoch, the EthPoW
  branch included, except at the two reset blocks of that branch: the fork block itself
  and the block 2048 after it.\<close>

theorem CalcDifficulty_minimum:
  assumes "EthPoWForkBlock c \<noteq> Some (Number p + 1)"
    and "EthPoWForkBlock c \<noteq> Some (Number p + 1 - 2048)"
  shows "MinimumDifficulty \<le> CalcDifficulty P c t p"
  using assms by (rule CalcDifficulty_floor)

theorem CalcDifficulty_minimum_witness:
  "EthPoWForkBlock (exampleConfig (Some 10)) \<noteq> Some (Number (exampleHeader 20 1000 1000) + 1)
   \<and> EthPoWForkBlock (exampleConfig (Some 10))
        \<noteq> Some (Number (exampleHeader 20 1000 1000) + 1 - 2048)
   \<and> MinimumDifficulty \<le>
        CalcDifficulty exampleParams (exampleConfig (Some 10)) 2000 (exampleHeader 20 1000 1000)"
  using CalcDifficulty_minimum [of "exampleConfig (Some 10)" "exampleHeader 20 1000 1000"
      exampleParams 2000]
  by (simp add: exampleConfig_def exampleHeader_def)

lemma CalcCustomDifficulty_zero:
  "CalcCustomDifficulty P c t p 0 0 0 = max (CalcDifficulty P c t p) minimumDifficulty"
  by (simp add: CalcCustomDifficulty_def Let_def bigDiv_def totalWeight_def max_def)

text \<open>C2, as the spec states it, fails: at the EthPoW fork block the base difficulty is 1,
  and the final floor of \<^verbatim>\<open>CalcCustomDifficulty\<close> raises it to 131072.\<close>

theorem CalcCustomDifficulty_zero_factors_counterexample:
  "CalcCustomDifficulty exampleParams (exampleConfig (Some 10)) 2000
       (exampleHeader 9 1000000 1000) 0 0 0
     \<noteq> CalcDifficulty exampleParams (exampleConfig (Some 10)) 2000 (exampleHeader 9 1000000 1000)"
  by (simp add: CalcCustomDifficulty_def CalcDifficulty_def Let_def IsEthPoWFork_def isForked_def
      big1_def exampleConfig_def exampleHeader_def minimumDifficulty_def bigDiv_def totalWeight_def)

text \<open>C2 (amended): with the three factors zero, \<^verbatim>\<open>CalcCustomDifficulty\<close> returns the base
  difficulty of \<^verbatim>\<open>CalcDifficulty\<close> raised to the floor 131072 when it is below it; at every
  block other than the two EthPoW reset blocks that is the base difficulty unchanged.\<close>

theorem CalcCustomDifficulty_zero_factors:
  "CalcCustomDifficulty P c t p 0 0 0 = max (CalcDifficulty P c t p) minimumDifficulty
   \<and> (EthPoWForkBlock c \<noteq> Some (Number p + 1) \<and> EthPoWForkBlock c \<noteq> Some (Number p + 1 - 2048)
      \<longrightarrow> CalcCustomDifficulty P c t p 0 0 0 = CalcDifficulty P c t p)"
  using CalcDifficulty_floor [of c p P t]
  by (auto simp: CalcCustomDifficulty_zero minimumDifficulty_def MinimumDifficulty_def)

theorem CalcCustomDifficulty_zero_factors_witness:
  "EthPoWForkBlock (exampleConfig None) \<noteq> Some (Number (exampleHeader 1 1000000 1000) + 1)
   \<and> EthPoWForkBlock (exampleConfig None)
        \<noteq> Some (Number (exampleHeader 1 1000000 1000) + 1 - 2048)
   \<and> CalcCustomDifficulty exampleParams (exampleConfig None) 2000 (exampleHeader 1 1000000 1000) 0 0 0
       = CalcDifficulty exampleParams (exampleConfig None) 2000 (exampleHeader 1 1000000 1000)"
  using CalcCustomDifficulty_zero_factors [of exampleParams "exampleConfig None" 2000
      "exampleHeader 1 1000000 1000"]
  by (simp add: exampleConfig_def exampleHeader_def)

text \<open>C3: in the bomb-delay calculators the bomb term added to the result is zero while the
  period count is at most 1 and \<open>2^(periodCount - 2)\<close> from period 2 on, where the period
  count is \<open>max(0, blockNumber - bombDelay) / 100000\<close>, the subtraction stopping at zero,
  and \<open>blockNumber\<close> is the number of the candidate block.\<close>

theorem makeDifficultyCalculator_bomb:
  "makeDifficultyCalculator bombDelay P t p =
     calcDifficultyEthPoW P t p + bombTerm bombDelay (Number p + 1)"
  by (simp add: makeDifficultyCalculator_split bombTerm_def)

subsection \<open>The stake registry\<close>

lemma Add_zero: "h ! y = 0 \<Longrightarrow> Add h z z y = h"
  by (simp add: Add_def)

lemma UpdateValidator_zero_store: "h ! l = 0 \<Longrightarrow> snd (UpdateValidator pos h a l n) = h"
  by (simp add: UpdateValidator_def Add_zero Let_def split: option.splits)

lemma UpdateValidator_TotalStake [simp]:
  "TotalStake (fst (UpdateValidator pos h a l n)) = TotalStake pos"
  by (simp add: UpdateValidator_def Let_def split: option.splits)

lemma UpdateValidator_length [simp]:
  "length (snd (UpdateValidator pos h a l n)) = length h"
  by (simp add: UpdateValidator_def Let_def Add_def split: option.splits)

lemma UpdateValidator_Stake:
  "map_option Stake (Validators (fst (UpdateValidator pos h a l n)) b) =
     (if b = a then Some (case Validators pos a of None \<Rightarrow> l | Some v \<Rightarrow> Stake v)
      else map_option Stake (Validators pos b))"
  by (simp add: UpdateValidator_def Let_def split: option.splits)

lemma UpdateValidator_dom:
  "dom (Validators (fst (UpdateValidator pos h a l n))) = insert a (dom (Validators pos))"
  by (auto simp: UpdateValidator_def Let_def split: option.splits)

lemma stakeOf_zero_call:
  assumes "h ! l = 0"
  shows "stakeOf (UpdateValidator pos h a l n) a =
           Some (case stakeOf (pos, h) a of None \<Rightarrow> 0 | Some s \<Rightarrow> s)"
  using assms
  by (simp add: stakeOf_def UpdateValidator_def Let_def Add_zero split: option.splits)

text \<open>C8: calling \<^verbatim>\<open>UpdateValidator\<close> twice for one address with a stake object whose
  amount is 0 leaves the value of \<^verbatim>\<open>TotalStake\<close> and the validator's stake where they
  started (a validator that was not registered starts and ends at 0); indeed no big
  integer of the store changes, whatever the stake objects are aliased with.\<close>

theorem UpdateValidator_zero_twice:
  assumes "z1 < length h" and "h ! z1 = 0"
    and "st1 = UpdateValidator pos h addr z1 n"
    and "z2 < length (snd st1)" and "snd st1 ! z2 = 0"
    and "st2 = UpdateValidator (fst st1) (snd st1) addr z2 n"
  shows "totalStake st2 = totalStake (pos, h)
       \<and> stakeOf st2 addr = Some (case stakeOf (pos, h) addr of None \<Rightarrow> 0 | Some s \<Rightarrow> s)
       \<and> snd st2 = h"
proof -
  have h1: "snd st1 = h"
    using assms(2,3) by (simp add: UpdateValidator_zero_store)
  have h2: "snd st2 = h"
    using assms(5,6) h1 by (simp add: UpdateValidator_zero_store)
  have t: "totalStake st2 = totalStake (pos, h)"
    using h2 assms(3,6) by (simp add: totalStake_def)
  have s1: "stakeOf st1 addr = Some (case stakeOf (pos, h) addr of None \<Rightarrow> 0 | Some s \<Rightarrow> s)"
    using assms(2,3) by (simp add: stakeOf_zero_call)
  have "stakeOf st2 addr = Some (case stakeOf (fst st1, snd st1) addr of None \<Rightarrow> 0 | Some s \<Rightarrow> s)"
    using assms(5,6) by (simp add: stakeOf_zero_call)
  with s1 have s2: "stakeOf st2 addr = Some (case stakeOf (pos, h) addr of None \<Rightarrow> 0 | Some s \<Rightarrow> s)"
    by simp
  from t s2 h2 show ?thesis by simp
qed

theorem UpdateValidator_zero_twice_witness:
  "(0::nat) < length [0, 9, 9::int] \<and> [0, 9, 9::int] ! 0 = 0
   \<and> totalStake (UpdateValidator (fst (UpdateValidator stakers [0, 9, 9] 7 0 5))
                   (snd (UpdateValidator stakers [0, 9, 9] 7 0 5)) 7 0 5) = 9
   \<and> stakeOf (UpdateValidator (fst (UpdateValidator stakers [0, 9, 9] 7 0 5))
                   (snd (UpdateValidator stakers [0, 9, 9] 7 0 5)) 7 0 5) 7 = Some 9"
  using UpdateValidator_zero_twice [of 0 "[0, 9, 9]" "UpdateValidator stakers [0, 9, 9] 7 0 5"
      stakers 7 5 0 "UpdateValidator (fst (UpdateValidator stakers [0, 9, 9] 7 0 5))
                   (snd (UpdateValidator stakers [0, 9, 9] 7 0 5)) 7 0 5"]
  by (simp add: UpdateValidator_zero_store totalStake_def stakeOf_def stakers_def)

lemma UpdateValidator_noAlias:
  assumes "noAlias (pos, h)" and "l \<noteq> TotalStake pos"
  shows "noAlias (UpdateValidator pos h a l n)"
  using assms
  by (auto simp: noAlias_def UpdateValidator_def Let_def Add_def split: option.splits)

lemma UpdateValidator_totalStake:
  assumes "noAlias (pos, h)"
  shows "totalStake (UpdateValidator pos h a l n) =
           totalStake (pos, h) + (if a \<in> dom (Validators pos) then 0 else h ! l)"
  using assms
  by (auto simp: noAlias_def totalStake_def UpdateValidator_def Let_def Add_def
      split: option.splits)

lemma UpdateValidator_repeat_stake:
  assumes "Validators pos a = Some v" and "Stake v < length h"
  shows "stakeOf (UpdateValidator pos h a l n) a = Some (h ! Stake v + h ! l)"
  using assms
  by (simp add: stakeOf_def UpdateValidator_def Let_def Add_def)

lemma UpdateValidator_validRefs:
  assumes "validRefs (pos, h)" and "l < length h"
  shows "validRefs (UpdateValidator pos h a l n)"
  using assms
  by (auto simp: validRefs_def UpdateValidator_def Let_def Add_def split: option.splits)

lemma updateAll_invariant:
  assumes "noAlias st" and "validRefs st"
    and "\<forall>(a, l, n) \<in> set cs. l < length (snd st) \<and> l \<noteq> TotalStake (fst st)"
  shows "noAlias (updateAll st cs) \<and> validRefs (updateAll st cs)
       \<and> TotalStake (fst (updateAll st cs)) = TotalStake (fst st)
       \<and> length (snd (updateAll st cs)) = length (snd st)
       \<and> totalStake (updateAll st cs) =
           totalStake st + firstCallSum (dom (Validators (fst st))) st cs"
  using assms
proof (induction cs arbitrary: st)
  case Nil
  then show ?case by simp
next
  case (Cons c cs)
  obtain a l n where c: "c = (a, l, n)"
    by (cases c) auto
  let ?st = "UpdateValidator (fst st) (snd st) a l n"
  from Cons.prems c have l: "l < length (snd st)" "l \<noteq> TotalStake (fst st)"
    by auto
  have na: "noAlias ?st"
    using Cons.prems(1) l(2) UpdateValidator_noAlias [of "fst st" "snd st" l a n] by simp
  have vr: "validRefs ?st"
    using Cons.prems(2) l(1) UpdateValidator_validRefs [of "fst st" "snd st" l a n] by simp
  have rest: "\<forall>(a, l, n) \<in> set cs. l < length (snd ?st) \<and> l \<noteq> TotalStake (fst ?st)"
    using Cons.prems(3) by simp
  note IH = Cons.IH [OF na vr rest]
  have step: "totalStake ?st =
      totalStake st + (if a \<in> dom (Validators (fst st)) then 0 else snd st ! l)"
    using Cons.prems(1) UpdateValidator_totalStake [of "fst st" "snd st" a l n] by simp
  show ?case
    using IH step by (simp add: c UpdateValidator_dom)
qed

lemma NewPoS_simps:
  "fst (NewPoS h0) = \<lparr>Validators = Map.empty, TotalStake = length h0\<rparr>"
  "snd (NewPoS h0) = h0 @ [0]"
  by (simp_all add: NewPoS_def NewInt_def)

lemma NewPoS_invariant: "noAlias (NewPoS h0) \<and> validRefs (NewPoS h0) \<and> totalStake (NewPoS h0) = 0"
  by (simp add: noAlias_def validRefs_def totalStake_def NewPoS_simps)

text \<open>C9 (amended): after every sequence of \<^verbatim>\<open>UpdateValidator\<close> calls on a new registry,
  none of which passes the registry's own \<^verbatim>\<open>TotalStake\<close> object as its stake (the stakes
  are objects of the caller), the value of \<^verbatim>\<open>TotalStake\<close> is the sum of the amounts passed
  in each address's first call only; a repeat call for a registered address adds its
  amount to that validator's stake and leaves \<^verbatim>\<open>TotalStake\<close> as it is, so the total need
  not be the sum of the validators' stakes.\<close>

theorem TotalStake_first_calls:
  assumes "\<forall>(a, l, n) \<in> set cs. l < length h0"
    and "st = updateAll (NewPoS h0) cs"
  shows "totalStake st = firstCallSum {} (NewPoS h0) cs
       \<and> (\<forall>a l n. a \<in> dom (Validators (fst st)) \<and> l < length h0 \<longrightarrow>
            totalStake (UpdateValidator (fst st) (snd st) a l n) = totalStake st
          \<and> stakeOf (UpdateValidator (fst st) (snd st) a l n) a =
              map_option (\<lambda>s. s + snd st ! l) (stakeOf st a))"
proof -
  have calls: "\<forall>(a, l, n) \<in> set cs. l < length (snd (NewPoS h0)) \<and> l \<noteq> TotalStake (fst (NewPoS h0))"
    using assms(1) by (auto simp: NewPoS_simps)
  have inv: "noAlias st \<and> validRefs st \<and> totalStake st = firstCallSum {} (NewPoS h0) cs"
    using updateAll_invariant [of "NewPoS h0" cs] NewPoS_invariant [of h0] calls assms(2)
    by (simp add: NewPoS_simps)
  have rep: "totalStake (UpdateValidator (fst st) (snd st) a l n) = totalStake st
          \<and> stakeOf (UpdateValidator (fst st) (snd st) a l n) a =
              map_option (\<lambda>s. s + snd st ! l) (stakeOf st a)"
    if "a \<in> dom (Validators (fst st))" for a l n
  proof -
    from that obtain v where v: "Validators (fst st) a = Some v" by auto
    with inv have "Stake v < length (snd st)" by (auto simp: validRefs_def)
    with v have "stakeOf (UpdateValidator (fst st) (snd st) a l n) a = Some (snd st ! Stake v + snd st ! l)"
      by (rule UpdateValidator_repeat_stake)
    moreover have "stakeOf st a = Some (snd st ! Stake v)"
      using v by (simp add: stakeOf_def)
    moreover have "totalStake (UpdateValidator (fst st) (snd st) a l n) = totalStake st"
      using inv that UpdateValidator_totalStake [of "fst st" "snd st" a l n] by simp
    ultimately show ?thesis by simp
  qed
  from inv rep show ?thesis by blast
qed

theorem TotalStake_first_calls_witness:
  "(0 :: nat) < length [5, 3 :: int] \<and> (1 :: nat) < length [5, 3 :: int]
   \<and> totalStake (updateAll (NewPoS [5, 3]) [(alice, 0, 1), (alice, 1, 2)]) = 5
   \<and> stakeOf (updateAll (NewPoS [5, 3]) [(alice, 0, 1), (alice, 1, 2)]) alice = Some 8"
proof -
  have c: "\<forall>(a, l, n) \<in> set [(alice, 0, 1), (alice, 1 :: nat, 2 :: uint64)]. l < length [5, 3 :: int]"
    by simp
  have "totalStake (updateAll (NewPoS [5, 3]) [(alice, 0, 1), (alice, 1, 2)])
      = firstCallSum {} (NewPoS [5, 3]) [(alice, 0, 1), (alice, 1, 2)]"
    using TotalStake_first_calls [OF c refl] by blast
  moreover have "firstCallSum {} (NewPoS [5, 3]) [(alice, 0, 1), (alice, 1, 2)] = 5"
    by (simp add: NewPoS_simps)
  moreover have "stakeOf (updateAll (NewPoS [5, 3]) [(alice, 0, 1), (alice, 1, 2)]) alice = Some 8"
    by (simp add: NewPoS_simps UpdateValidator_def Add_def stakeOf_def Let_def)
  ultimately show ?thesis using c by simp
qed

text \<open>C9, as stated for every sequence of calls, fails when a caller passes the registry's
  own \<^verbatim>\<open>TotalStake\<close> object as the stake of a new validator: the validator's stake is then
  that object, and a repeat call for the validator adds to the total. Here the first calls
  pass 0 and 5, and the total ends at 8.\<close>

theorem TotalStake_first_calls_counterexample:
  "totalStake (updateAll (NewPoS [5, 3])
      [(alice, TotalStake (fst (NewPoS [5, 3])), 1), (bob, 0, 2), (alice, 1, 3)]) = 8
   \<and> firstCallSum {} (NewPoS [5, 3])
      [(alice, TotalStake (fst (NewPoS [5, 3])), 1), (bob, 0, 2), (alice, 1, 3)] = 5"
  by (simp add: NewPoS_simps UpdateValidator_def Add_def totalStake_def Let_def alice_def bob_def)

subsection \<open>The transaction registry\<close>

lemma RecordTransaction_dom:
  "dom (TransactionRecords (RecordTransaction pot a n)) = insert a (dom (TransactionRecords pot))"
  by (auto simp: RecordTransaction_def Let_def split: option.splits)

lemma RecordTransaction_total:
  "TotalTransactions (RecordTransaction pot a n) =
     TotalTransactions pot + (if a \<in> dom (TransactionRecords pot) then 0 else 1)"
  by (auto simp: RecordTransaction_def Let_def split: option.splits)

lemma RecordTransaction_repeat:
  assumes "TransactionRecords pot a = Some r"
  shows "TransactionRecords (RecordTransaction pot a n) a =
           Some (r\<lparr>TransactionCount := TransactionCount r + 1, LastTransaction := n\<rparr>)
       \<and> TotalTransactions (RecordTransaction pot a n) = TotalTransactions pot"
  using assms by (simp add: RecordTransaction_def Let_def)

lemma recordAll_invariant:
  assumes "finite (dom (TransactionRecords pot))"
    and "TotalTransactions pot = of_nat (card (dom (TransactionRecords pot)))"
  shows "dom (TransactionRecords (recordAll pot cs)) = dom (TransactionRecords pot) \<union> fst ` set cs
       \<and> TotalTransactions (recordAll pot cs) =
           of_nat (card (dom (TransactionRecords (recordAll pot cs))))"
  using assms
proof (induction cs arbitrary: pot)
  case Nil
  then show ?case by simp
next
  case (Cons c cs)
  obtain a n where c: "c = (a, n)" by (cases c)
  let ?pot = "RecordTransaction pot a n"
  have fin: "finite (dom (TransactionRecords ?pot))"
    using Cons.prems(1) by (simp add: RecordTransaction_dom)
  have tot: "TotalTransactions ?pot = of_nat (card (dom (TransactionRecords ?pot)))"
  proof (cases "a \<in> dom (TransactionRecords pot)")
    case True
    then show ?thesis
      using Cons.prems(2) by (simp add: RecordTransaction_dom RecordTransaction_total insert_absorb)
  next
    case False
    then show ?thesis
      using Cons.prems by (simp add: RecordTransaction_dom RecordTransaction_total)
  qed
  from Cons.IH [OF fin tot] show ?case
    by (auto simp: c RecordTransaction_dom)
qed

text \<open>C10: after every sequence of \<^verbatim>\<open>RecordTransaction\<close> calls on a new registry,
  \<^verbatim>\<open>TotalTransactions\<close> is the number of distinct addresses in \<^verbatim>\<open>TransactionRecords\<close>
  (as a \<^verbatim>\<open>uint64\<close>; exactly so for fewer than \<open>2^64\<close> calls), which are the addresses
  of the calls, and not the number of recorded transactions: it is smaller as soon as an
  address repeats, since a call for a registered address only increments that record's
  \<^verbatim>\<open>TransactionCount\<close>.\<close>

theorem TotalTransactions_distinct_addresses:
  assumes "pot = recordAll NewPoT cs"
  shows "dom (TransactionRecords pot) = fst ` set cs
       \<and> TotalTransactions pot = of_nat (card (dom (TransactionRecords pot)))
       \<and> (length cs < 2 ^ 64 \<longrightarrow> unat (TotalTransactions pot) = card (dom (TransactionRecords pot)))
       \<and> (length cs < 2 ^ 64 \<and> \<not> distinct (map fst cs) \<longrightarrow> unat (TotalTransactions pot) < length cs)
       \<and> (\<forall>a n r. TransactionRecords pot a = Some r \<longrightarrow>
            TotalTransactions (RecordTransaction pot a n) = TotalTransactions pot
          \<and> TransactionRecords (RecordTransaction pot a n) a =
              Some (r\<lparr>TransactionCount := TransactionCount r + 1, LastTransaction := n\<rparr>))"
proof -
  have inv: "dom (TransactionRecords pot) = fst ` set cs
      \<and> TotalTransactions pot = of_nat (card (dom (TransactionRecords pot)))"
    using recordAll_invariant [of NewPoT cs] assms by (simp add: NewPoT_def)
  have le: "card (dom (TransactionRecords pot)) \<le> length cs"
    using inv card_length [of "map fst cs"] by simp
  have small: "unat (TotalTransactions pot) = card (dom (TransactionRecords pot))"
    if "length cs < 2 ^ 64"
  proof -
    from le that have "card (dom (TransactionRecords pot)) < 2 ^ 64" by simp
    then have "unat (of_nat (card (dom (TransactionRecords pot))) :: uint64)
        = card (dom (TransactionRecords pot))"
      by (simp add: unat_of_nat)
    with inv show ?thesis by simp
  qed
  have less: "unat (TotalTransactions pot) < length cs"
    if "length cs < 2 ^ 64" and "\<not> distinct (map fst cs)"
  proof -
    have "card (set (map fst cs)) \<noteq> length (map fst cs)"
      using that(2) card_distinct by blast
    then have "card (dom (TransactionRecords pot)) < length cs"
      using le inv by simp
    with small [OF that(1)] show ?thesis by simp
  qed
  from inv small less RecordTransaction_repeat show ?thesis by blast
qed

theorem TotalTransactions_distinct_addresses_witness:
  "length [(carol, 10), (carol, 11), (carol, 12 :: uint64)] < 2 ^ 64
   \<and> \<not> distinct (map fst [(carol, 10), (carol, 11), (carol, 12 :: uint64)])
   \<and> TransactionRecords (recordAll NewPoT [(carol, 10), (carol, 11), (carol, 12)]) carol
       = Some \<lparr>Address_tr = carol, TransactionCount = 3, LastTransaction = 12\<rparr>
   \<and> unat (TotalTransactions (recordAll NewPoT [(carol, 10), (carol, 11), (carol, 12)])) = 1
   \<and> unat (TotalTransactions (recordAll NewPoT [(carol, 10), (carol, 11), (carol, 12)])) < 3
   \<and> TotalTransactions (RecordTransaction (recordAll NewPoT [(carol, 10), (carol, 11), (carol, 12)]) carol 13)
       = TotalTransactions (recordAll NewPoT [(carol, 10), (carol, 11), (carol, 12)])"
proof -
  let ?cs = "[(carol, 10), (carol, 11), (carol, 12 :: uint64)]"
  have r: "TransactionRecords (recordAll NewPoT ?cs) carol
       = Some \<lparr>Address_tr = carol, TransactionCount = 3, LastTransaction = 12\<rparr>"
    by (simp add: NewPoT_def RecordTransaction_def)
  have d: "fst ` set ?cs = {carol}" by simp
  note t = TotalTransactions_distinct_addresses [of "recordAll NewPoT ?cs" ?cs, OF refl]
  from t have "unat (TotalTransactions (recordAll NewPoT ?cs)) = card (dom (TransactionRecords (recordAll NewPoT ?cs)))"
    by simp
  moreover from t have "dom (TransactionRecords (recordAll NewPoT ?cs)) = {carol}"
    using d by simp
  ultimately have one: "unat (TotalTransactions (recordAll NewPoT ?cs)) = 1" by simp
  from t r have "TotalTransactions (RecordTransaction (recordAll NewPoT ?cs) carol 13)
       = TotalTransactions (recordAll NewPoT ?cs)" by blast
  with r one show ?thesis by simp
qed

subsection \<open>Block rewards\<close>

lemma uncleRewards_state:
  "fst (uncleRewards b w h us (s, reward)) a =
     s a + (\<Sum>u\<leftarrow>us. if Coinbase u = a then (Number u + 8 - Number h) * b div 8 else 0)"
  by (induction us arbitrary: s reward)
    (simp_all add: Let_def AddBalance_def bigDiv_pos big8_def)

lemma uncleRewards_reward:
  "snd (uncleRewards b w h us (s, reward)) = reward + int (length us) * (w div 32)"
  by (induction us arbitrary: s reward)
    (simp_all add: Let_def bigDiv_pos big32_def algebra_simps)

lemma distributePoSPoTRewards_none: "distributePoSPoTRewards s h r = s"
  by (simp add: distributePoSPoTRewards_def getPoSAndPoTParticipants_def)

text \<open>C7: in the PoW reward stream, finalizing a block with uncles \<open>u_1..u_n\<close> credits each
  uncle's beneficiary \<open>(uncleNumber + 8 - blockNumber) * blockReward / 8\<close> and the block's
  beneficiary the block reward plus \<open>blockReward / 32\<close> for each uncle, the block reward
  being \<open>10^18\<close>; the balance of every address grows by exactly the credits it is named
  in, and the hybrid stream, which has no participants, adds nothing.\<close>

theorem accumulateRewards_credits:
  "accumulateRewards c state hdr us a =
     state a
     + (\<Sum>u\<leftarrow>us. if Coinbase u = a
          then (Number u + 8 - Number hdr) * 1000000000000000000 div 8 else 0)
     + (if Coinbase hdr = a
        then 1000000000000000000 + int (length us) * (1000000000000000000 div 32) else 0)"
proof -
  obtain s r where sr: "uncleRewards 1000000000000000000 1000000000000000000 hdr us
      (state, 1000000000000000000) = (s, r)"
    by (cases "uncleRewards 1000000000000000000 1000000000000000000 hdr us
      (state, 1000000000000000000)")
  have s: "s a = state a + (\<Sum>u\<leftarrow>us. if Coinbase u = a
          then (Number u + 8 - Number hdr) * 1000000000000000000 div 8 else 0)"
    using uncleRewards_state [of 1000000000000000000 1000000000000000000 hdr us
        state 1000000000000000000 a] sr by simp
  have r: "r = 1000000000000000000 + int (length us) * (1000000000000000000 div 32)"
    using uncleRewards_reward [of 1000000000000000000 1000000000000000000 hdr us
        state 1000000000000000000] sr by simp
  have "accumulateRewards c state hdr us = AddBalance s (Coinbase hdr) r"
    by (simp add: accumulateRewards_def Let_def sr distributePoSPoTRewards_none)
  then show ?thesis
    using s r by (cases "Coinbase hdr = a") (auto simp: AddBalance_def)
qed

subsection \<open>The seal\<close>

lemma verifySeal_sealer:
  "noFake e \<Longrightarrow> verifySeal env e hdr fulldag = verifySeal env (sealer e) hdr fulldag"
  by (induction e rule: sealer.induct) simp_all

lemma sealer_final:
  "noFake e \<Longrightarrow> \<exists>cfg fail delay. sealer e = Ethash cfg fail delay None
      \<and> PowMode cfg \<noteq> ModeFake \<and> PowMode cfg \<noteq> ModeFullFake"
  by (induction e rule: sealer.induct) simp_all

lemma verifySeal_real:
  assumes "PowMode cfg \<noteq> ModeFake" and "PowMode cfg \<noteq> ModeFullFake"
  shows "verifySeal env (Ethash cfg fail delay None) hdr fulldag =
     (if Difficulty hdr \<le> 0 then Some errInvalidDifficulty
      else if hashBytes (MixDigest hdr) \<noteq> fst (computeSeal env cfg hdr fulldag)
        then Some errInvalidMixDigest
      else if two256 div Difficulty hdr < SetBytes (snd (computeSeal env cfg hdr fulldag))
        then Some errInvalidPoW
      else None)"
  using assms by (simp add: Let_def bigDiv_def split: prod.splits)

text \<open>C6 (amended): outside the fake modes (no engine on the chain of shared engines is
  fake), seal verification rejects with the invalid-difficulty error when the header's
  difficulty is at most 0; otherwise it rejects with the invalid-mix-digest error exactly
  when the computed digest differs from the bytes of the header's mix digest, rejects
  with the invalid-PoW error exactly when the digests agree and the computed result, read
  as an integer, exceeds \<open>2^256 / difficulty\<close>, and succeeds exactly when the digests
  agree and the result is at most that target.\<close>

theorem verifySeal_verdict:
  assumes "noFake e"
  shows "(Difficulty hdr \<le> 0 \<longrightarrow>
            verifySeal env e hdr fulldag = Some errInvalidDifficulty)
       \<and> (0 < Difficulty hdr \<longrightarrow>
            (verifySeal env e hdr fulldag = Some errInvalidMixDigest \<longleftrightarrow>
               hashBytes (MixDigest hdr) \<noteq> fst (computeSeal env (config (sealer e)) hdr fulldag))
          \<and> (verifySeal env e hdr fulldag = Some errInvalidPoW \<longleftrightarrow>
               hashBytes (MixDigest hdr) = fst (computeSeal env (config (sealer e)) hdr fulldag)
               \<and> 2 ^ 256 div Difficulty hdr
                   < SetBytes (snd (computeSeal env (config (sealer e)) hdr fulldag)))
          \<and> (verifySeal env e hdr fulldag = None \<longleftrightarrow>
               hashBytes (MixDigest hdr) = fst (computeSeal env (config (sealer e)) hdr fulldag)
               \<and> SetBytes (snd (computeSeal env (config (sealer e)) hdr fulldag))
                   \<le> 2 ^ 256 div Difficulty hdr))"
proof -
  from sealer_final [OF assms] obtain cfg fail delay where
    s: "sealer e = Ethash cfg fail delay None"
    and m: "PowMode cfg \<noteq> ModeFake" "PowMode cfg \<noteq> ModeFullFake"
    by blast
  have "verifySeal env e hdr fulldag = verifySeal env (Ethash cfg fail delay None) hdr fulldag"
    using verifySeal_sealer [OF assms] s by simp
  then show ?thesis
    unfolding verifySeal_real [OF m] s by (auto simp: two256_def)
qed

text \<open>C6, as stated for every header, fails for a fake engine: there the seal check only
  compares the block number with the configured failing one, and a header of difficulty 0
  passes.\<close>

theorem verifySeal_verdict_counterexample:
  "Difficulty (exampleHeader 5 0 1000) \<le> 0
   \<and> verifySeal exampleEnv fakeEngine (exampleHeader 5 0 1000) False = None"
  by (simp add: fakeEngine_def exampleHeader_def Uint64_def)

lemma SetBytes_example: "SetBytes [1] = 1" by (simp add: SetBytes_def)

theorem verifySeal_verdict_witness:
  "noFake normalEngine
   \<and> 0 < Difficulty (exampleHeader 5 1000 1000)
   \<and> verifySeal exampleEnv normalEngine (exampleHeader 5 1000 1000) False = None
   \<and> Difficulty (exampleHeader 5 0 1000) \<le> 0
   \<and> verifySeal exampleEnv normalEngine (exampleHeader 5 0 1000) False = Some errInvalidDifficulty"
proof -
  have n: "noFake normalEngine" by (simp add: normalEngine_def)
  have c: "computeSeal exampleEnv (config (sealer normalEngine)) (exampleHeader 5 1000 1000) False
      = (hashBytes 0, [1])"
    by (simp add: computeSeal_def exampleEnv_def normalEngine_def Let_def)
  have m: "MixDigest (exampleHeader 5 1000 1000) = 0" "Difficulty (exampleHeader 5 1000 1000) = 1000"
    "Difficulty (exampleHeader 5 0 1000) = 0"
    by (simp_all add: exampleHeader_def)
  from verifySeal_verdict [OF n, of "exampleHeader 5 1000 1000" exampleEnv False]
  have a: "verifySeal exampleEnv normalEngine (exampleHeader 5 1000 1000) False = None"
    by (simp add: c m SetBytes_example)
  from verifySeal_verdict [OF n, of "exampleHeader 5 0 1000" exampleEnv False]
  have b: "verifySeal exampleEnv normalEngine (exampleHeader 5 0 1000) False = Some errInvalidDifficulty"
    by (simp add: m)
  from n a b m show ?thesis by simp
qed

subsection \<open>Uncle verification\<close>

lemma checkUncles_duplicate:
  assumes "checkUncles env P e chain now b anc pre S = None"
    and "HeaderHash env u \<in> S \<union> HeaderHash env ` set pre"
  shows "checkUncles env P e chain now b anc (pre @ u # rest) S = Some errDuplicateUncle"
  using assms
proof (induction pre arbitrary: S)
  case Nil
  then show ?case by simp
next
  case (Cons x pre)
  from Cons.prems(1) have x: "HeaderHash env x \<notin> S"
    by (auto simp: Let_def split: if_splits)
  from Cons.prems(1) x have rest: "checkUncles env P e chain now b anc pre (insert (HeaderHash env x) S) = None"
    by (auto simp: Let_def split: if_splits option.splits)
  from Cons.prems(2) have "HeaderHash env u \<in> insert (HeaderHash env x) S \<union> HeaderHash env ` set pre"
    by auto
  from Cons.IH [OF rest this] Cons.prems(1) x show ?case
    by (auto simp: Let_def split: if_splits option.splits)
qed

lemma checkUncles_rejects:
  assumes "HeaderHash env u \<in> S \<union> HeaderHash env ` set pre"
  shows "checkUncles env P e chain now b anc (pre @ u # rest) S \<noteq> None"
  using assms
proof (induction pre arbitrary: S)
  case Nil
  then show ?case by simp
next
  case (Cons x pre)
  from Cons.prems have "HeaderHash env u \<in> insert (HeaderHash env x) S \<union> HeaderHash env ` set pre"
    by auto
  from Cons.IH [OF this] show ?case
    by (auto simp: Let_def split: option.splits)
qed

lemma checkUncles_first_error:
  assumes "checkUncles env P e chain now b anc pre S = Some err"
  shows "checkUncles env P e chain now b anc (pre @ xs) S = Some err"
  using assms
proof (induction pre arbitrary: S)
  case Nil
  then show ?case by simp
next
  case (Cons x pre)
  then show ?case
    by (auto simp: Let_def split: if_splits option.splits)
qed

lemma checkUncles_block_uncles [simp]:
  "checkUncles env P e chain now (b\<lparr>uncles := us\<rparr>) anc xs S
     = checkUncles env P e chain now b anc xs S"
  by (induction xs arbitrary: S) (simp_all add: Let_def split: option.splits)

lemma gathered_uncles [simp]: "gathered env P chain (b\<lparr>uncles := us\<rparr>) = gathered env P chain b"
  by (simp add: gathered_def)

lemma gathered_own_hash: "HeaderHash env (header b) \<in> fst (gathered env P chain b)"
  by (simp add: gathered_def split: prod.splits)

lemma VerifyUncles_loop:
  assumes "PowMode (config e) \<noteq> ModeFullFake" and "length (uncles b) \<le> maxUncles"
  shows "VerifyUncles env P e chain now b =
     checkUncles env P e chain now b (snd (gathered env P chain b)) (uncles b)
       (fst (gathered env P chain b))"
proof -
  obtain S A where g: "gatherAncestors P env chain 7 ({}, Map.empty)
      (Uint64 (Number (header b)) - 1) (ParentHash (header b)) = (S, A)"
    by fastforce
  have gath: "gathered env P chain b
      = (insert (HeaderHash env (header b)) S, A(HeaderHash env (header b) \<mapsto> header b))"
    by (simp add: gathered_def g)
  show ?thesis
  proof (cases "length (uncles b) = 0")
    case True
    with assms show ?thesis by (simp add: VerifyUncles_def)
  next
    case False
    with assms show ?thesis
      unfolding gath by (simp add: VerifyUncles_def g Let_def)
  qed
qed

text \<open>C5 (amended): outside the full-fake mode, a block in which an uncle has the hash of
  an earlier uncle of the block, or of the block itself, is never accepted by
  \<^verbatim>\<open>VerifyUncles\<close>. With at most two uncles, the error is the duplicate-uncle error,
  raised at that uncle, when the uncles before it pass their checks (there may be none:
  an uncle with the block's own hash is rejected at once); when an earlier uncle fails a
  check, the error is that earlier one.\<close>

theorem VerifyUncles_duplicate:
  assumes "PowMode (config e) \<noteq> ModeFullFake"
    and "uncles b = pre @ u # rest"
    and "HeaderHash env u = HeaderHash env (header b) \<or> HeaderHash env u \<in> HeaderHash env ` set pre"
  shows "VerifyUncles env P e chain now b \<noteq> None
       \<and> (length (uncles b) \<le> maxUncles \<longrightarrow>
            (VerifyUncles env P e chain now (b\<lparr>uncles := pre\<rparr>) = None \<longrightarrow>
               VerifyUncles env P e chain now b = Some errDuplicateUncle)
          \<and> (VerifyUncles env P e chain now (b\<lparr>uncles := pre\<rparr>) \<noteq> None \<longrightarrow>
               VerifyUncles env P e chain now b
                 = VerifyUncles env P e chain now (b\<lparr>uncles := pre\<rparr>)))"
proof -
  let ?S = "fst (gathered env P chain b)" and ?A = "snd (gathered env P chain b)"
  have mem: "HeaderHash env u \<in> ?S \<union> HeaderHash env ` set pre"
    using assms(3) gathered_own_hash [of env b P chain] by auto
  have notNone: "VerifyUncles env P e chain now b \<noteq> None"
  proof (cases "length (uncles b) \<le> maxUncles")
    case True
    then show ?thesis
      using VerifyUncles_loop [OF assms(1) True, of env P chain now]
        checkUncles_rejects [OF mem, of P e chain now b ?A rest] assms(2)
      by simp
  next
    case False
    with assms(1) show ?thesis by (simp add: VerifyUncles_def)
  qed
  have rest: "(VerifyUncles env P e chain now (b\<lparr>uncles := pre\<rparr>) = None \<longrightarrow>
               VerifyUncles env P e chain now b = Some errDuplicateUncle)
          \<and> (VerifyUncles env P e chain now (b\<lparr>uncles := pre\<rparr>) \<noteq> None \<longrightarrow>
               VerifyUncles env P e chain now b
                 = VerifyUncles env P e chain now (b\<lparr>uncles := pre\<rparr>))"
    if len: "length (uncles b) \<le> maxUncles"
  proof -
    have len': "length (uncles (b\<lparr>uncles := pre\<rparr>)) \<le> maxUncles"
      using len assms(2) by simp
    have full: "VerifyUncles env P e chain now b
        = checkUncles env P e chain now b ?A (pre @ u # rest) ?S"
      using VerifyUncles_loop [OF assms(1) len, of env P chain now] assms(2) by simp
    have "config e = config e" ..
    have part: "VerifyUncles env P e chain now (b\<lparr>uncles := pre\<rparr>)
        = checkUncles env P e chain now b ?A pre ?S"
      using VerifyUncles_loop [OF assms(1) len', of env P chain now] by simp
    show ?thesis
    proof (cases "checkUncles env P e chain now b ?A pre ?S")
      case None
      from checkUncles_duplicate [OF None mem] show ?thesis
        by (simp add: full part None)
    next
      case (Some err)
      from checkUncles_first_error [OF Some] show ?thesis
        by (simp add: full part Some)
    qed
  qed
  from notNone rest show ?thesis by blast
qed

lemma gatherAncestors_emptyChain: "gatherAncestors P env emptyChain k acc n p = acc"
  by (cases k; cases acc) (simp_all add: emptyChain_def)

text \<open>C5, as stated for every block with two uncles of one hash, fails: the uncles are
  checked in turn, and here the first of the two is dangling, so that error is returned
  before the second occurrence is looked at.\<close>

theorem VerifyUncles_duplicate_counterexample:
  "HeaderHash exampleEnv (uncles twins ! 0) = HeaderHash exampleEnv (uncles twins ! 1)
   \<and> VerifyUncles exampleEnv exampleParams normalEngine emptyChain 2000 twins
       = Some errDanglingUncle"
proof -
  have "gatherAncestors exampleParams exampleEnv emptyChain 7 ({}, Map.empty) 9 0
      = ({}, Map.empty)"
    by (rule gatherAncestors_emptyChain)
  then show ?thesis
    by (simp add: VerifyUncles_def twins_def exampleEnv_def normalEngine_def
        exampleHeader_def maxUncles_def Let_def Uint64_def)
qed

theorem VerifyUncles_duplicate_witness:
  "PowMode (config normalEngine) \<noteq> ModeFullFake
   \<and> HeaderHash exampleEnv2 uncle9 \<in> HeaderHash exampleEnv2 ` set [uncle9]
   \<and> VerifyUncles exampleEnv2 exampleParams normalEngine shortChain 2000 (block10 [uncle9]) = None
   \<and> VerifyUncles exampleEnv2 exampleParams normalEngine shortChain 2000
         (block10 [uncle9, uncle9]) = Some errDuplicateUncle"
proof -
  have m: "PowMode (config normalEngine) \<noteq> ModeFullFake"
    by (simp add: normalEngine_def)
  have u: "uncles (block10 [uncle9, uncle9]) = [uncle9] @ uncle9 # []"
    by (simp add: block10_def)
  have h: "HeaderHash exampleEnv2 uncle9 = HeaderHash exampleEnv2 (header (block10 [uncle9, uncle9]))
      \<or> HeaderHash exampleEnv2 uncle9 \<in> HeaderHash exampleEnv2 ` set [uncle9]"
    by simp
  have one: "VerifyUncles exampleEnv2 exampleParams normalEngine shortChain 2000
      (block10 [uncle9]) = None"
    by code_simp
  have b: "(block10 [uncle9, uncle9])\<lparr>uncles := [uncle9]\<rparr> = block10 [uncle9]"
    by (simp add: block10_def)
  from VerifyUncles_duplicate [OF m u h, of exampleParams shortChain 2000] one
  have "VerifyUncles exampleEnv2 exampleParams normalEngine shortChain 2000
      (block10 [uncle9, uncle9]) = Some errDuplicateUncle"
    by (simp add: b block10_def maxUncles_def)
  with m one show ?thesis by simp
qed

subsection \<open>Batch verification\<close>

declare drain.simps [simp del]

lemma drain_frame:
  "workers (drain n st) = workers st \<and> doneCh (drain n st) = doneCh st
   \<and> errors (drain n st) = errors st \<and> checked (drain n st) = checked st
   \<and> inIndex (drain n st) = inIndex st \<and> inputs (drain n st) = inputs st
   \<and> aborted (drain n st) = aborted st"
proof (induction n st rule: drain.induct)
  case (1 n st)
  show ?case
    using 1 by (subst (1 2 3 4 5 6 7) drain.simps) (simp add: Let_def)
qed

lemma drain_emits:
  assumes "length (checked st) = n" and "length (errors st) = n"
    and "\<not> panicked st" and "\<not> returned st"
    and "length (errorsOut st) = outIndex st" and "outIndex st < n"
    and "\<forall>j < length (errorsOut st). verify j = Returns (errorsOut st ! j)"
    and "\<forall>i < n. checked st ! i \<longrightarrow> verify i = Returns (errors st ! i)"
  shows "\<not> panicked (drain n st)
     \<and> (\<forall>j < length (errorsOut (drain n st)). verify j = Returns (errorsOut (drain n st) ! j))
     \<and> length (errorsOut (drain n st)) \<le> n
     \<and> (\<not> returned (drain n st) \<longrightarrow>
           length (errorsOut (drain n st)) = outIndex (drain n st)
         \<and> outIndex (drain n st) < n \<and> \<not> checked st ! outIndex (drain n st))
     \<and> (returned (drain n st) \<longrightarrow> length (errorsOut (drain n st)) = n)"
  using assms
proof (induction n st rule: drain.induct)
  case (1 n st)
  let ?o = "outIndex st"
  show ?case
  proof (cases "checked st ! ?o")
    case False
    have "drain n st = st"
      using False "1.prems"(1,6) by (subst drain.simps) simp
    with False "1.prems" show ?thesis by simp
  next
    case True
    let ?st = "st\<lparr>errorsOut := errorsOut st @ [errors st ! ?o]\<rparr>"
    have new: "\<forall>j < length (errorsOut ?st). verify j = Returns (errorsOut ?st ! j)"
      using True "1.prems"(5,6,7,8) by (auto simp: nth_append less_Suc_eq)
    show ?thesis
    proof (cases "int ?o = int n - 1")
      case last: True
      have d: "drain n st = ?st\<lparr>returned := True\<rparr>"
        using True last "1.prems"(1,2,6) by (subst drain.simps) (simp add: Let_def)
      have "Suc ?o = n" using last by linarith
      with new "1.prems" show ?thesis
        unfolding d by simp
    next
      case more: False
      let ?next = "?st\<lparr>outIndex := outIndex ?st + 1\<rparr>"
      have d: "drain n st = drain n ?next"
        using True more "1.prems"(1,2,6) by (subst drain.simps) (simp add: Let_def)
      have lt: "Suc ?o < n" using more "1.prems"(6) by linarith
      have "\<not> panicked (drain n ?next)
         \<and> (\<forall>j < length (errorsOut (drain n ?next)). verify j = Returns (errorsOut (drain n ?next) ! j))
         \<and> length (errorsOut (drain n ?next)) \<le> n
         \<and> (\<not> returned (drain n ?next) \<longrightarrow>
               length (errorsOut (drain n ?next)) = outIndex (drain n ?next)
             \<and> outIndex (drain n ?next) < n \<and> \<not> checked ?next ! outIndex (drain n ?next))
         \<and> (returned (drain n ?next) \<longrightarrow> length (errorsOut (drain n ?next)) = n)"
      proof (rule "1.IH" [of ?st])
        show "\<not> length (checked st) \<le> outIndex st" using "1.prems"(1,6) by simp
        show "\<not> \<not> checked st ! outIndex st" using True by simp
        show "\<not> length (errors st) \<le> outIndex st" using "1.prems"(2,6) by simp
        show "?st = ?st" ..
        show "int (outIndex ?st) \<noteq> int n - 1" using more by simp
        show "length (checked ?next) = n" using "1.prems"(1) by simp
        show "length (errors ?next) = n" using "1.prems"(2) by simp
        show "\<not> panicked ?next" using "1.prems"(3) by simp
        show "\<not> returned ?next" using "1.prems"(4) by simp
        show "length (errorsOut ?next) = outIndex ?next" using "1.prems"(5) by simp
        show "outIndex ?next < n" using lt by simp
        show "\<forall>j<length (errorsOut ?next). verify j = Returns (errorsOut ?next ! j)"
          using new by simp
        show "\<forall>i<n. checked ?next ! i \<longrightarrow> verify i = Returns (errors ?next ! i)"
          using "1.prems"(8) by simp
      qed
      then show ?thesis unfolding d by simp
    qed
  qed
qed

lemma holds_update_waiting:
  assumes "k < length ws" and "ws ! k = Waiting" and "holds ws i"
  shows "holds (ws[k := w]) i"
proof -
  from assms(3) obtain j where j: "j < length ws" "ws ! j = Verifying i \<or> ws ! j = Sending i"
    by (auto simp: holds_def)
  with assms(2) have "j \<noteq> k" by auto
  with j have "j < length (ws[k := w])" "ws[k := w] ! j = Verifying i \<or> ws[k := w] ! j = Sending i"
    by simp_all
  then show ?thesis unfolding holds_def by blast
qed

lemma holds_update_new:
  assumes "k < length ws" and "w = Verifying i \<or> w = Sending i"
  shows "holds (ws[k := w]) i"
  unfolding holds_def using assms by (intro exI [of _ k]) simp

lemma holds_update_cases:
  assumes "k < length ws" and "holds (ws[k := w]) i"
  shows "holds ws i \<or> w = Verifying i \<or> w = Sending i"
proof -
  from assms(2) obtain j where j: "j < length ws"
      "ws[k := w] ! j = Verifying i \<or> ws[k := w] ! j = Sending i"
    by (auto simp: holds_def)
  show ?thesis
  proof (cases "j = k")
    case True
    with j assms(1) show ?thesis by simp
  next
    case False
    with j have "ws ! j = Verifying i \<or> ws ! j = Sending i" by simp
    with j(1) show ?thesis unfolding holds_def by blast
  qed
qed

lemma holds_update_left:
  assumes "k < length ws" and "holds ws i"
  shows "holds (ws[k := w]) i \<or> ws ! k = Verifying i \<or> ws ! k = Sending i"
proof -
  from assms(2) obtain j where j: "j < length ws" "ws ! j = Verifying i \<or> ws ! j = Sending i"
    by (auto simp: holds_def)
  show ?thesis
  proof (cases "j = k")
    case True
    with j show ?thesis by simp
  next
    case False
    with j have "j < length (ws[k := w])"
        "ws[k := w] ! j = Verifying i \<or> ws[k := w] ! j = Sending i"
      by simp_all
    then show ?thesis unfolding holds_def by blast
  qed
qed

lemma holds_nth:
  "k < length ws \<Longrightarrow> ws ! k = Verifying i \<or> ws ! k = Sending i \<Longrightarrow> holds ws i"
  unfolding holds_def by blast

lemma step_Dispatch_inv:
  assumes "batchInv verify n st" and "step verify n st (Dispatch k) = Some st'"
  shows "batchInv verify n st'"
proof -
  from assms(1) have sh: "shapeInv n st" and he: "heldInv verify n st"
    and co: "coverInv st" and ou: "outInv verify n st"
    by (simp_all add: batchInv_def)
  from assms(2) have en: "\<not> returned st" "inputs st" "k < length (workers st)"
      "workers st ! k = Waiting"
    by (auto split: if_splits)
  from sh en have lt: "inIndex st < n" by (simp add: shapeInv_def)
  let ?ws = "(workers st)[k := Verifying (inIndex st)]"
  from assms(2) en sh have st': "st' = st\<lparr>workers := ?ws,
      inIndex := Suc (inIndex st), inputs := Suc (inIndex st) \<noteq> n\<rparr>"
    by (auto simp: Let_def shapeInv_def split: if_splits)
  have sh': "shapeInv n st'"
    using sh lt unfolding st' shapeInv_def by auto
  have held: "i < Suc (inIndex st)" if "holds ?ws i" for i
    using holds_update_cases [OF en(3) that] he by (auto simp: heldInv_def)
  have he': "heldInv verify n st'"
    using he held en(3) unfolding st' heldInv_def
    by (auto simp: nth_list_update less_Suc_eq)
  have cov: "checked st ! i \<or> i \<in> set (doneCh st) \<or> holds ?ws i" if "i < Suc (inIndex st)" for i
  proof (cases "i = inIndex st")
    case True
    then show ?thesis using holds_update_new [OF en(3), of "Verifying i" i] by simp
  next
    case False
    with that have "i < inIndex st" by simp
    with co have "checked st ! i \<or> i \<in> set (doneCh st) \<or> holds (workers st) i"
      by (simp add: coverInv_def)
    then show ?thesis using holds_update_waiting [OF en(3,4)] by blast
  qed
  have co': "coverInv st'"
    using cov unfolding st' coverInv_def by simp
  have ou': "outInv verify n st'"
    using ou unfolding st' outInv_def by simp
  from sh' he' co' ou' show ?thesis by (simp add: batchInv_def)
qed

lemma step_Verify_inv:
  assumes "batchInv verify n st" and "\<forall>i < n. verify i \<noteq> Panics"
    and "step verify n st (Verify k) = Some st'"
  shows "batchInv verify n st'"
proof -
  from assms(1) have sh: "shapeInv n st" and he: "heldInv verify n st"
    and co: "coverInv st" and ou: "outInv verify n st"
    by (simp_all add: batchInv_def)
  from assms(3) obtain index where en: "k < length (workers st)"
      "workers st ! k = Verifying index"
    by (auto split: if_splits worker.splits)
  from he en have "index < inIndex st"
    using holds_nth [of k "workers st" index] by (simp add: heldInv_def)
  with sh have idx: "index < n" "index < length (errors st)"
    by (simp_all add: shapeInv_def)
  with assms(2) obtain r where r: "verify index = Returns r"
    by (cases "verify index") auto
  let ?ws = "(workers st)[k := Sending index]"
  let ?es = "(errors st)[index := r]"
  from assms(3) en idx r sh have st': "st' = st\<lparr>errors := ?es, workers := ?ws\<rparr>"
    by (simp add: shapeInv_def)
  have keep: "verify i = Returns (?es ! i)" if "verify i = Returns (errors st ! i)" for i
    using that r idx(2) by (cases "i = index") simp_all
  have sh': "shapeInv n st'"
    using sh unfolding st' shapeInv_def by simp
  have held: "i < inIndex st" if "holds ?ws i" for i
    using holds_update_cases [OF en(1) that] he \<open>index < inIndex st\<close>
    by (auto simp: heldInv_def)
  have sending: "verify i = Returns (?es ! i)" if "j < length ?ws" "?ws ! j = Sending i" for i j
  proof (cases "j = k")
    case True
    with that en(1) have "i = index" by simp
    with r idx(2) show ?thesis by simp
  next
    case False
    with that have "j < length (workers st)" "workers st ! j = Sending i" by simp_all
    with he have "verify i = Returns (errors st ! i)" by (simp add: heldInv_def)
    then show ?thesis by (rule keep)
  qed
  have he': "heldInv verify n st'"
    unfolding st' heldInv_def using held sending he keep
    by (simp add: heldInv_def)
  have cov: "checked st ! i \<or> i \<in> set (doneCh st) \<or> holds ?ws i" if "i < inIndex st" for i
  proof -
    from co that have "checked st ! i \<or> i \<in> set (doneCh st) \<or> holds (workers st) i"
      by (simp add: coverInv_def)
    moreover have "holds ?ws i" if "holds (workers st) i"
      using holds_update_left [OF en(1) that, of "Sending index"] en(2)
        holds_update_new [OF en(1), of "Sending index" index]
      by auto
    ultimately show ?thesis by blast
  qed
  have co': "coverInv st'"
    using cov unfolding st' coverInv_def by simp
  have ou': "outInv verify n st'"
    using ou unfolding st' outInv_def by simp
  from sh' he' co' ou' show ?thesis by (simp add: batchInv_def)
qed

lemma step_Send_inv:
  assumes "batchInv verify n st" and "step verify n st (Send k) = Some st'"
  shows "batchInv verify n st'"
proof -
  from assms(1) have sh: "shapeInv n st" and he: "heldInv verify n st"
    and co: "coverInv st" and ou: "outInv verify n st"
    by (simp_all add: batchInv_def)
  from assms(2) obtain index where en: "k < length (workers st)"
      "workers st ! k = Sending index"
    by (auto split: if_splits worker.splits)
  let ?ws = "(workers st)[k := Waiting]"
  from assms(2) en have st': "st' = st\<lparr>doneCh := doneCh st @ [index], workers := ?ws\<rparr>"
    by (auto split: if_splits)
  from he en have index: "index < inIndex st" "verify index = Returns (errors st ! index)"
    using holds_nth [of k "workers st" index] by (simp_all add: heldInv_def)
  have sh': "shapeInv n st'"
    using sh unfolding st' shapeInv_def by simp
  have held: "i < inIndex st" if "holds ?ws i" for i
    using holds_update_cases [OF en(1) that] he by (auto simp: heldInv_def)
  have sending: "verify i = Returns (errors st ! i)" if "j < length ?ws" "?ws ! j = Sending i" for i j
  proof -
    from that en(1) have "j \<noteq> k" by (cases "j = k") simp_all
    with that have "j < length (workers st)" "workers st ! j = Sending i" by simp_all
    with he show ?thesis by (simp add: heldInv_def)
  qed
  have he': "heldInv verify n st'"
    unfolding st' heldInv_def using held sending he index
    by (auto simp: heldInv_def)
  have cov: "checked st ! i \<or> i \<in> set (doneCh st @ [index]) \<or> holds ?ws i"
    if "i < inIndex st" for i
  proof -
    from co that have "checked st ! i \<or> i \<in> set (doneCh st) \<or> holds (workers st) i"
      by (simp add: coverInv_def)
    moreover have "i = index \<or> holds ?ws i" if "holds (workers st) i"
      using holds_update_left [OF en(1) that, of Waiting] en(2) by auto
    ultimately show ?thesis by auto
  qed
  have co': "coverInv st'"
    using cov unfolding st' coverInv_def by simp
  have ou': "outInv verify n st'"
    using ou unfolding st' outInv_def by simp
  from sh' he' co' ou' show ?thesis by (simp add: batchInv_def)
qed

lemma step_Abort_inv:
  assumes "batchInv verify n st" and "step verify n st Abort = Some st'"
  shows "batchInv verify n st'"
proof -
  from assms(2) have st': "st' = st\<lparr>returned := True, aborted := True\<rparr>"
    by (auto split: if_splits)
  from assms(1) show ?thesis
    unfolding st' batchInv_def shapeInv_def heldInv_def coverInv_def outInv_def by simp
qed

lemma step_Receive_inv:
  assumes "batchInv verify n st" and "step verify n st Receive = Some st'"
  shows "batchInv verify n st'"
proof -
  from assms(1) have sh: "shapeInv n st" and he: "heldInv verify n st"
    and co: "coverInv st" and ou: "outInv verify n st"
    by (simp_all add: batchInv_def)
  from assms(2) obtain index rest where en: "\<not> returned st" "doneCh st = index # rest"
    by (auto split: if_splits list.splits)
  from he en(2) have index: "index < inIndex st" "verify index = Returns (errors st ! index)"
    by (simp_all add: heldInv_def)
  with sh have idx: "index < n" "index < length (checked st)"
    by (simp_all add: shapeInv_def)
  let ?st = "st\<lparr>doneCh := rest, checked := (checked st)[index := True]\<rparr>"
  from assms(2) en idx sh have st': "st' = drain n ?st"
    by (simp add: shapeInv_def)
  note fr = drain_frame [of n ?st]
  have chk: "verify i = Returns (errors ?st ! i) \<and> i < inIndex st"
    if "i < n" "checked ?st ! i" for i
  proof (cases "i = index")
    case True
    with index show ?thesis by simp
  next
    case False
    with that he idx(2) show ?thesis by (simp add: heldInv_def)
  qed
  have em: "\<not> panicked (drain n ?st)
     \<and> (\<forall>j < length (errorsOut (drain n ?st)). verify j = Returns (errorsOut (drain n ?st) ! j))
     \<and> length (errorsOut (drain n ?st)) \<le> n
     \<and> (\<not> returned (drain n ?st) \<longrightarrow>
           length (errorsOut (drain n ?st)) = outIndex (drain n ?st)
         \<and> outIndex (drain n ?st) < n \<and> \<not> checked ?st ! outIndex (drain n ?st))
     \<and> (returned (drain n ?st) \<longrightarrow> length (errorsOut (drain n ?st)) = n)"
  proof (rule drain_emits)
    show "length (checked ?st) = n" using sh by (simp add: shapeInv_def)
    show "length (errors ?st) = n" using sh by (simp add: shapeInv_def)
    show "\<not> panicked ?st" using sh by (simp add: shapeInv_def)
    show "\<not> returned ?st" using en(1) by simp
    show "length (errorsOut ?st) = outIndex ?st" using ou en(1) by (simp add: outInv_def)
    show "outIndex ?st < n" using ou en(1) by (simp add: outInv_def)
    show "\<forall>j<length (errorsOut ?st). verify j = Returns (errorsOut ?st ! j)"
      using ou by (simp add: outInv_def)
    show "\<forall>i<n. checked ?st ! i \<longrightarrow> verify i = Returns (errors ?st ! i)"
      using chk by blast
  qed
  have sh': "shapeInv n st'"
    using sh em fr unfolding st' shapeInv_def by simp
  have he': "heldInv verify n st'"
    unfolding st' heldInv_def using fr he chk en(2)
    by (simp add: heldInv_def)
  have cov: "checked ?st ! i \<or> i \<in> set rest \<or> holds (workers st) i" if "i < inIndex st" for i
  proof -
    from co that have c: "checked st ! i \<or> i \<in> set (doneCh st) \<or> holds (workers st) i"
      by (simp add: coverInv_def)
    show ?thesis
    proof (cases "i = index")
      case True
      with idx(2) show ?thesis by simp
    next
      case False
      with c en(2) idx(2) show ?thesis by auto
    qed
  qed
  have co': "coverInv st'"
    unfolding st' coverInv_def using fr cov by simp
  have ou': "outInv verify n st'"
    unfolding st' outInv_def using em fr by simp
  from sh' he' co' ou' show ?thesis by (simp add: batchInv_def)
qed

lemma step_inv:
  assumes "batchInv verify n st" and "\<forall>i < n. verify i \<noteq> Panics"
    and "step verify n st ev = Some st'"
  shows "batchInv verify n st'"
proof (cases ev)
  case (Dispatch k)
  with assms show ?thesis using step_Dispatch_inv by blast
next
  case (Verify k)
  with assms show ?thesis using step_Verify_inv by blast
next
  case (Send k)
  with assms show ?thesis using step_Send_inv by blast
next
  case Receive
  with assms show ?thesis using step_Receive_inv by blast
next
  case Abort
  with assms show ?thesis using step_Abort_inv by blast
qed

lemma sum_list_map_update:
  "k < length ws \<Longrightarrow>
     sum_list (map f (ws[k := w])) + f (ws ! k) = sum_list (map f ws) + (f w :: nat)"
proof (induction ws arbitrary: k)
  case Nil
  then show ?case by simp
next
  case (Cons x ws)
  then show ?case by (cases k) auto
qed

lemma drain_returned_le:
  "(if returned (drain n st) then 0 else 1 :: nat) \<le> (if returned st then 0 else 1)"
proof (induction n st rule: drain.induct)
  case (1 n st)
  show ?case
    using 1 by (subst drain.simps) (auto simp: Let_def split: if_splits)
qed

lemma step_workLeft:
  assumes "batchInv verify n st" and "\<forall>i < n. verify i \<noteq> Panics"
    and "step verify n st ev = Some st'"
  shows "workLeft n st' < workLeft n st"
proof -
  from assms(1) have sh: "shapeInv n st" and he: "heldInv verify n st"
    by (simp_all add: batchInv_def)
  show ?thesis
  proof (cases ev)
    case (Dispatch k)
    with assms(3) have en: "\<not> returned st" "inputs st" "k < length (workers st)"
        "workers st ! k = Waiting"
      by (auto split: if_splits)
    from sh en have lt: "inIndex st < n" by (simp add: shapeInv_def)
    from assms(3) Dispatch en have st': "workers st' = (workers st)[k := Verifying (inIndex st)]"
        "inIndex st' = Suc (inIndex st)" "doneCh st' = doneCh st" "returned st' = returned st"
      by (auto simp: Let_def split: if_splits)
    from sum_list_map_update [OF en(3), of load "Verifying (inIndex st)"] en(4)
    have "sum_list (map load (workers st')) = sum_list (map load (workers st)) + 3"
      by (simp add: st')
    with lt show ?thesis by (simp add: workLeft_def st')
  next
    case (Verify k)
    with assms(3) obtain index where en: "k < length (workers st)"
        "workers st ! k = Verifying index"
      by (auto split: if_splits worker.splits)
    from he en have "index < inIndex st"
      using holds_nth [of k "workers st" index] by (simp add: heldInv_def)
    with sh have idx: "index < n" "index < length (errors st)"
      by (simp_all add: shapeInv_def)
    with assms(2) obtain r where r: "verify index = Returns r"
      by (cases "verify index") auto
    from assms(3) Verify en idx r sh
    have st': "st' = st\<lparr>errors := (errors st)[index := r],
        workers := (workers st)[k := Sending index]\<rparr>"
      by (simp add: shapeInv_def)
    from sum_list_map_update [OF en(1), of load "Sending index"] en(2)
    have "sum_list (map load (workers st')) + 3 = sum_list (map load (workers st)) + 2"
      by (simp add: st')
    then show ?thesis by (simp add: workLeft_def st')
  next
    case (Send k)
    with assms(3) obtain index where en: "k < length (workers st)"
        "workers st ! k = Sending index"
      by (auto split: if_splits worker.splits)
    from assms(3) Send en
    have st': "st' = st\<lparr>doneCh := doneCh st @ [index], workers := (workers st)[k := Waiting]\<rparr>"
      by (auto split: if_splits)
    from sum_list_map_update [OF en(1), of load Waiting] en(2)
    have "sum_list (map load (workers st')) + 2 = sum_list (map load (workers st))"
      by (simp add: st')
    then show ?thesis by (simp add: workLeft_def st')
  next
    case Receive
    with assms(3) obtain index rest where en: "\<not> returned st" "doneCh st = index # rest"
      by (auto split: if_splits list.splits)
    from he en(2) have "index < inIndex st" by (simp add: heldInv_def)
    with sh have idx: "index < length (checked st)" by (simp add: shapeInv_def)
    let ?st = "st\<lparr>doneCh := rest, checked := (checked st)[index := True]\<rparr>"
    from assms(3) Receive en idx sh have st': "st' = drain n ?st"
      by (simp add: shapeInv_def)
    from drain_frame [of n ?st] drain_returned_le [of n ?st] en show ?thesis
      by (simp add: workLeft_def st')
  next
    case Abort
    with assms(3) have "\<not> returned st" "st' = st\<lparr>returned := True, aborted := True\<rparr>"
      by (auto split: if_splits)
    then show ?thesis by (simp add: workLeft_def)
  qed
qed

lemma step_aborted:
  assumes "step verify n st ev = Some st'"
  shows "aborted st' \<longleftrightarrow> aborted st \<or> ev = Abort"
proof (cases ev)
  case (Dispatch k)
  with assms show ?thesis by (auto simp: Let_def split: if_splits)
next
  case (Verify k)
  with assms show ?thesis by (auto split: if_splits worker.splits outcome.splits)
next
  case (Send k)
  with assms show ?thesis by (auto split: if_splits worker.splits)
next
  case Receive
  with assms show ?thesis
    using drain_frame by (auto split: if_splits list.splits)
next
  case Abort
  with assms show ?thesis by (auto split: if_splits)
qed

lemma no_deadlock:
  assumes "batchInv verify n st" and "\<not> returned st"
  shows "\<exists>ev. ev \<noteq> Abort \<and> step verify n st ev \<noteq> None"
proof -
  from assms(1) have sh: "shapeInv n st" and he: "heldInv verify n st"
    and co: "coverInv st" and ou: "outInv verify n st"
    by (simp_all add: batchInv_def)
  from sh have np: "\<not> panicked st" and w: "0 < length (workers st)"
    by (simp_all add: shapeInv_def)
  show ?thesis
  proof (cases "doneCh st")
    case (Cons index rest)
    with np assms(2) have "step verify n st Receive \<noteq> None" by simp
    then show ?thesis by blast
  next
    case Nil
    show ?thesis
    proof (cases "\<exists>k < length (workers st). workers st ! k \<noteq> Waiting")
      case True
      then obtain k where k: "k < length (workers st)" "workers st ! k \<noteq> Waiting" by blast
      show ?thesis
      proof (cases "workers st ! k")
        case Waiting
        with k show ?thesis by simp
      next
        case (Verifying index)
        with np k have "step verify n st (Verify k) \<noteq> None"
          by (simp split: outcome.splits)
        then show ?thesis by blast
      next
        case (Sending index)
        with np k Nil w have "step verify n st (Send k) \<noteq> None" by simp
        then show ?thesis by blast
      qed
    next
      case False
      then have idle: "\<forall>k < length (workers st). workers st ! k = Waiting" by blast
      then have nohold: "\<not> holds (workers st) i" for i
        by (auto simp: holds_def)
      show ?thesis
      proof (cases "inputs st")
        case True
        with np assms(2) w idle have "step verify n st (Dispatch 0) \<noteq> None"
          by (simp add: Let_def)
        then show ?thesis by blast
      next
        case False
        with sh have "inIndex st = n" by (simp add: shapeInv_def)
        with co Nil nohold have "\<forall>i < n. checked st ! i" by (simp add: coverInv_def)
        moreover from ou assms(2) have "outIndex st < n" "\<not> checked st ! outIndex st"
          by (simp_all add: outInv_def)
        ultimately show ?thesis by blast
      qed
    qed
  qed
qed

lemma run_inv:
  assumes "batchInv verify n st" and "\<forall>i < n. verify i \<noteq> Panics"
    and "run verify n st evs = Some st'"
  shows "batchInv verify n st' \<and> workLeft n st' + length evs \<le> workLeft n st
       \<and> (aborted st' \<longleftrightarrow> aborted st \<or> Abort \<in> set evs)"
  using assms
proof (induction evs arbitrary: st)
  case Nil
  then show ?case by simp
next
  case (Cons ev evs)
  from Cons.prems(3) obtain st1 where s1: "step verify n st ev = Some st1"
      and r1: "run verify n st1 evs = Some st'"
    by (auto split: option.splits)
  have inv1: "batchInv verify n st1"
    using step_inv [OF Cons.prems(1,2) s1] .
  from Cons.IH [OF inv1 Cons.prems(2) r1]
    step_workLeft [OF Cons.prems(1,2) s1] step_aborted [OF s1]
  show ?case by auto
qed

lemma VerifyHeaders_start:
  assumes "0 < procs" and "PowMode (config e) \<noteq> ModeFullFake" and "headers \<noteq> []"
  shows "batchInv verify (length headers) (VerifyHeaders e procs headers)
       \<and> workLeft (length headers) (VerifyHeaders e procs headers) = 4 * length headers + 1
       \<and> \<not> aborted (VerifyHeaders e procs headers)"
proof -
  have idle: "\<not> holds (replicate m Waiting) i" for m i
    by (auto simp: holds_def)
  have load: "sum_list (map load (replicate m Waiting)) = 0" for m
    by (induction m) simp_all
  from assms show ?thesis
    by (simp add: VerifyHeaders_def batchInv_def shapeInv_def heldInv_def coverInv_def
        outInv_def workLeft_def Let_def idle load)
qed

lemma step_stopped:
  assumes "returned st" and "workers st = []"
  shows "step verify n st ev = None"
  using assms by (cases ev) simp_all

lemma run_stopped:
  assumes "returned st" and "workers st = []" and "run verify n st evs = Some st'"
  shows "evs = [] \<and> st' = st"
  using assms by (cases evs) (simp_all add: step_stopped)

lemma verifyHeaderWorker_returns:
  assumes "length headers \<le> length seals" and "i < length headers"
  shows "verifyHeaderWorker env P e chain headers seals i unixNow \<noteq> Panics"
  using assms by (simp add: verifyHeaderWorker_def Let_def split: option.splits)

text \<open>C4: for every sequence of headers with a seal flag for each, and whatever the order
  in which the goroutines run and the workers complete, \<^verbatim>\<open>VerifyHeaders\<close> sends on its
  results channel the results of the headers in the order of their indices, each once: at
  every moment of every run what has been sent is the list of the results of the first
  headers, nothing panics, and while the coordinator has not returned some goroutine can
  move; every run ends after at most \<open>4 * len(headers) + 1\<close> events, and when the
  coordinator has returned in a run that the caller did not abort, exactly one result per
  header has been sent.\<close>

theorem VerifyHeaders_in_order:
  assumes "0 < procs" and "length headers \<le> length seals"
    and "verifyRun env P e chain procs unixNow headers seals evs = Some st"
  shows "\<not> panicked st
     \<and> errorsOut st = map (resultOf env P e chain unixNow headers seals)
                        [0..<length (errorsOut st)]
     \<and> length (errorsOut st) \<le> length headers
     \<and> (aborted st \<longleftrightarrow> Abort \<in> set evs)
     \<and> (returned st \<and> Abort \<notin> set evs \<longrightarrow> length (errorsOut st) = length headers)
     \<and> (\<not> returned st \<longrightarrow>
          (\<exists>ev. ev \<noteq> Abort
             \<and> step (\<lambda>index. verifyHeaderWorker env P e chain headers seals index unixNow)
                   (length headers) st ev \<noteq> None))
     \<and> length evs \<le> 4 * length headers + 1"
proof (cases "PowMode (config e) = ModeFullFake \<or> headers = []")
  case True
  let ?init = "VerifyHeaders e procs headers"
  from True have init: "returned ?init" "workers ?init = []"
      "errorsOut ?init = replicate (length headers) None" "\<not> panicked ?init" "\<not> aborted ?init"
    by (auto simp: VerifyHeaders_def)
  from run_stopped [OF init(1,2)] assms(3) have st: "evs = []" "st = ?init"
    by (simp_all add: verifyRun_def)
  have "replicate (length headers) None
      = map (resultOf env P e chain unixNow headers seals) [0..<length headers]"
    using True by (intro nth_equalityI) (auto simp: resultOf_def)
  with init st show ?thesis by simp
next
  case False
  let ?verify = "\<lambda>index. verifyHeaderWorker env P e chain headers seals index unixNow"
  let ?n = "length headers"
  from False have mode: "PowMode (config e) \<noteq> ModeFullFake" and ne: "headers \<noteq> []"
    by simp_all
  have np: "\<forall>i < ?n. ?verify i \<noteq> Panics"
    using verifyHeaderWorker_returns [OF assms(2)] by blast
  note start = VerifyHeaders_start [OF assms(1) mode ne, of ?verify]
  from assms(3) have r: "run ?verify ?n (VerifyHeaders e procs headers) evs = Some st"
    by (simp add: verifyRun_def)
  from run_inv [OF _ np r] start
  have inv: "batchInv ?verify ?n st" and len: "workLeft ?n st + length evs \<le> 4 * ?n + 1"
    and ab: "aborted st \<longleftrightarrow> Abort \<in> set evs"
    by simp_all
  from inv have sh: "shapeInv ?n st" and ou: "outInv ?verify ?n st"
    by (simp_all add: batchInv_def)
  have out: "errorsOut st = map (resultOf env P e chain unixNow headers seals)
      [0..<length (errorsOut st)]"
  proof (rule nth_equalityI)
    show "length (errorsOut st) = length (map (resultOf env P e chain unixNow headers seals)
        [0..<length (errorsOut st)])"
      by simp
  next
    fix j
    assume "j < length (errorsOut st)"
    with ou have "?verify j = Returns (errorsOut st ! j)" by (simp add: outInv_def)
    with mode \<open>j < length (errorsOut st)\<close>
    show "errorsOut st ! j = map (resultOf env P e chain unixNow headers seals)
        [0..<length (errorsOut st)] ! j"
      by (simp add: resultOf_def)
  qed
  have dl: "\<exists>ev. ev \<noteq> Abort \<and> step ?verify ?n st ev \<noteq> None" if "\<not> returned st"
    using no_deadlock [OF inv that] .
  from sh ou out ab len dl show ?thesis
    by (auto simp: shapeInv_def outInv_def)
qed

theorem VerifyHeaders_in_order_witness:
  "(0 :: nat) < 2 \<and> length pair \<le> length [True, True]
   \<and> map_option returned
        (verifyRun exampleEnv exampleParams normalEngine emptyChain 2 2000 pair [True, True]
           lateFirst) = Some True
   \<and> Abort \<notin> set lateFirst
   \<and> map_option errorsOut
        (verifyRun exampleEnv exampleParams normalEngine emptyChain 2 2000 pair [True, True]
           lateFirst) = Some [Some ErrUnknownAncestor, Some errOlderBlockTime]"
proof -
  have p: "(0 :: nat) < 2" by simp
  have l: "length pair \<le> length [True, True]" by (simp add: pair_def)
  have a: "Abort \<notin> set lateFirst" by (simp add: lateFirst_def)
  have ret: "map_option returned
        (verifyRun exampleEnv exampleParams normalEngine emptyChain 2 2000 pair [True, True]
           lateFirst) = Some True"
    by code_simp
  then obtain st where st: "verifyRun exampleEnv exampleParams normalEngine emptyChain 2 2000
      pair [True, True] lateFirst = Some st" and r: "returned st"
    by auto
  have r0: "resultOf exampleEnv exampleParams normalEngine emptyChain 2000 pair [True, True] 0
      = Some ErrUnknownAncestor"
    by code_simp
  have r1: "resultOf exampleEnv exampleParams normalEngine emptyChain 2000 pair [True, True]
      (Suc 0) = Some errOlderBlockTime"
    by code_simp
  have lp: "length pair = 2" by (simp add: pair_def)
  note t = VerifyHeaders_in_order [OF p l st]
  from t r a have len: "length (errorsOut st) = 2"
    unfolding lp by blast
  from t have "errorsOut st = map (resultOf exampleEnv exampleParams normalEngine emptyChain 2000
        pair [True, True]) [0..<length (errorsOut st)]"
    by blast
  then have out: "errorsOut st = map (resultOf exampleEnv exampleParams normalEngine emptyChain
        2000 pair [True, True]) [0, Suc 0]"
    unfolding len by (simp add: upt_rec)
  have "errorsOut st = [Some ErrUnknownAncestor, Some errOlderBlockTime]"
    unfolding out by (simp add: r0 r1)
  with p l ret a st show ?thesis by simp
qed

end
